theory Spec2Isabelle
  imports Main "HOL-Library.Char_ord" "HOL-Library.List_Lexorder" "HOL-Library.Multiset"
begin

section \<open>Strings and characters\<close>

text \<open>
  A Python \<open>str\<close> is modelled by the byte sequence of its UTF-8 encoding, held in a
  \<open>string\<close>. The literals of \<open>app.py\<close> that contain an en dash carry its three bytes
  \<open>E2 80 93\<close>. \<open>html.escape\<close>, \<open>str.replace\<close>, \<open>str.split\<close>, \<open>urllib.parse.quote\<close> and
  the comparison of strings work on the bytes as they do on the characters.

  The \<open>re\<close> patterns, \<open>int\<close> and \<open>str.strip\<close> read characters and ask for their
  Unicode properties. They work on the list of the code points of the text, which
  \<open>code_points\<close> decodes from the bytes: a lead byte below \<open>C0\<close> stands alone, a lead
  byte below \<open>E0\<close> takes one continuation byte, below \<open>F0\<close> two, from \<open>F0\<close> three, and
  every continuation byte gives six bits. A byte sequence that is no UTF-8 encoding
  stands for no \<open>str\<close>; \<open>code_points\<close> is total on it all the same.
\<close>

type_synonym ustr = "nat list"

definition nl :: char where
  "nl = CHR 0x0A"

definition utf8_more :: "nat \<Rightarrow> nat" where
  "utf8_more b = (if b < 0xC0 then 0 else if b < 0xE0 then 1 else if b < 0xF0 then 2 else 3)"

definition utf8_lead :: "nat \<Rightarrow> nat" where
  "utf8_lead b =
     (if b < 0xC0 then b else if b < 0xE0 then b - 0xC0 else if b < 0xF0 then b - 0xE0
      else b - 0xF0)"

function code_points :: "string \<Rightarrow> ustr" where
  "code_points [] = []"
| "code_points (b # bs) =
     foldl (\<lambda>a c. 64 * a + (of_char c - 0x80)) (utf8_lead (of_char b))
       (take (utf8_more (of_char b)) bs)
     # code_points (drop (utf8_more (of_char b)) bs)"
  by pat_completeness auto
termination
  by (relation "measure length") auto

text \<open>
  The tables of the interpreter's Unicode database that the code consults, as a
  parameter of the model:
  \<^item> \<open>uni_decimal U x\<close> is the value of \<open>x\<close> when \<open>x\<close> is a decimal digit (general
    category Nd): \<open>\d\<close> matches these characters and \<open>int\<close> reads their values;
  \<^item> \<open>uni_space U x\<close> is \<open>str.isspace\<close>: the class \<open>\s\<close> and what \<open>str.strip\<close> removes;
  \<^item> \<open>uni_alnum U x\<close> is \<open>str.isalnum\<close>: \<open>\w\<close> is an alphanumeric character or the
    underscore;
  \<^item> \<open>uni_icase U c x\<close>: under \<open>re.I\<close> the pattern character \<open>c\<close> matches the text
    character \<open>x\<close>.
\<close>

record tables =
  uni_decimal :: "nat \<Rightarrow> nat option"
  uni_space :: "nat \<Rightarrow> bool"
  uni_alnum :: "nat \<Rightarrow> bool"
  uni_icase :: "nat \<Rightarrow> nat \<Rightarrow> bool"

definition is_digit :: "tables \<Rightarrow> nat \<Rightarrow> bool" where
  "is_digit U x \<longleftrightarrow> uni_decimal U x \<noteq> None"

definition is_space :: "tables \<Rightarrow> nat \<Rightarrow> bool" where
  "is_space U x \<longleftrightarrow> uni_space U x"

definition is_word :: "tables \<Rightarrow> nat \<Rightarrow> bool" where
  "is_word U x \<longleftrightarrow> uni_alnum U x \<or> x = 0x5F"

definition digit_value :: "tables \<Rightarrow> nat \<Rightarrow> nat" where
  "digit_value U x = (case uni_decimal U x of Some v \<Rightarrow> v | None \<Rightarrow> 0)"

text \<open>
  What the theorems below use of the tables. The first five lines are their ASCII part:
  the digits \<open>0-9\<close> with their values, the white space \<open>\t \n \v \f \r\<close>, \<open>\x1c-\x1f\<close>
  and the space, the letters and digits, a pattern character that is no letter matching
  itself only, and a letter matching its two cases among the ASCII characters. The last
  three lines are facts of the whole database: no decimal digit is white space, no white
  space is alphanumeric, and a character that matches an ASCII letter under \<open>re.I\<close>
  (besides the two cases of the letter, these are U+0130 and U+0131 for \<open>i\<close>, U+017F for
  \<open>s\<close> and U+212A for \<open>k\<close>) is neither a decimal digit nor white space.
\<close>

definition ascii_letter :: "nat \<Rightarrow> bool" where
  "ascii_letter c \<longleftrightarrow> (0x41 \<le> c \<and> c \<le> 0x5A) \<or> (0x61 \<le> c \<and> c \<le> 0x7A)"

definition ascii_lower :: "nat \<Rightarrow> nat" where
  "ascii_lower c = (if 0x41 \<le> c \<and> c \<le> 0x5A then c + 0x20 else c)"

definition unicode_facts :: "tables \<Rightarrow> bool" where
  "unicode_facts U \<longleftrightarrow>
     (\<forall>x < 128. uni_decimal U x = (if 0x30 \<le> x \<and> x \<le> 0x39 then Some (x - 0x30) else None)) \<and>
     (\<forall>x < 128. uni_space U x \<longleftrightarrow> (0x09 \<le> x \<and> x \<le> 0x0D) \<or> (0x1C \<le> x \<and> x \<le> 0x20)) \<and>
     (\<forall>x < 128. uni_alnum U x \<longleftrightarrow> (0x30 \<le> x \<and> x \<le> 0x39) \<or> ascii_letter x) \<and>
     (\<forall>c < 128. \<forall>x. \<not> ascii_letter c \<longrightarrow> (uni_icase U c x \<longleftrightarrow> x = c)) \<and>
     (\<forall>c < 128. \<forall>x < 128. ascii_letter c \<longrightarrow>
        (uni_icase U c x \<longleftrightarrow> ascii_lower x = ascii_lower c)) \<and>
     (\<forall>x. uni_decimal U x \<noteq> None \<longrightarrow> \<not> uni_space U x) \<and>
     (\<forall>x. uni_space U x \<longrightarrow> \<not> uni_alnum U x) \<and>
     (\<forall>c x. ascii_letter c \<and> uni_icase U c x \<longrightarrow> uni_decimal U x = None \<and> \<not> uni_space U x)"

text \<open>
  A part of the tables of Unicode, to run the definitions on: the decimal digits of
  ASCII, the Arabic-Indic ones (U+0660 to U+0669) and the Devanagari ones (U+0966 to
  U+096F); all white space; the alphanumeric characters of ASCII, these digits, the
  letters from U+00C0 to U+00FF, U+0130, U+0131, U+017F and U+212A; the case-insensitive
  match of an ASCII pattern character.
\<close>

definition sample_decimal :: "nat \<Rightarrow> nat option" where
  "sample_decimal x =
     (if 0x30 \<le> x \<and> x \<le> 0x39 then Some (x - 0x30)
      else if 0x660 \<le> x \<and> x \<le> 0x669 then Some (x - 0x660)
      else if 0x966 \<le> x \<and> x \<le> 0x96F then Some (x - 0x966)
      else None)"

definition sample_space :: "nat \<Rightarrow> bool" where
  "sample_space x \<longleftrightarrow>
     (0x09 \<le> x \<and> x \<le> 0x0D) \<or> (0x1C \<le> x \<and> x \<le> 0x20) \<or> x = 0x85 \<or> x = 0xA0 \<or>
     x = 0x1680 \<or> (0x2000 \<le> x \<and> x \<le> 0x200A) \<or> x = 0x2028 \<or> x = 0x2029 \<or>
     x = 0x202F \<or> x = 0x205F \<or> x = 0x3000"

definition sample_alnum :: "nat \<Rightarrow> bool" where
  "sample_alnum x \<longleftrightarrow>
     (0x30 \<le> x \<and> x \<le> 0x39) \<or> ascii_letter x \<or> (0x660 \<le> x \<and> x \<le> 0x669) \<or>
     (0x966 \<le> x \<and> x \<le> 0x96F) \<or> (0xC0 \<le> x \<and> x \<le> 0xFF \<and> x \<noteq> 0xD7 \<and> x \<noteq> 0xF7) \<or>
     x = 0x130 \<or> x = 0x131 \<or> x = 0x17F \<or> x = 0x212A"

definition sample_icase :: "nat \<Rightarrow> nat \<Rightarrow> bool" where
  "sample_icase c x \<longleftrightarrow>
     (if ascii_letter c
      then (x < 128 \<and> ascii_lower x = ascii_lower c) \<or>
           (ascii_lower c = 0x69 \<and> (x = 0x130 \<or> x = 0x131)) \<or>
           (ascii_lower c = 0x73 \<and> x = 0x17F) \<or>
           (ascii_lower c = 0x6B \<and> x = 0x212A)
      else x = c)"

definition sample_unicode :: tables where
  "sample_unicode =
     \<lparr>uni_decimal = sample_decimal, uni_space = sample_space, uni_alnum = sample_alnum,
      uni_icase = sample_icase\<rparr>"

text \<open>
  \<open>int(s)\<close> for a string of decimal digits, which is all that \<open>app.py\<close> passes to it
  (group 1 of a pattern that ends in \<open>(\d+)\<close>). Python integers are unbounded and the
  value of a digit string is never negative, so the value is a \<open>nat\<close>. The interpreter
  refuses a string of more than \<open>sys.int_info.default_max_str_digits\<close> digits, leading
  zeros counted, with \<open>ValueError\<close>; \<open>app.py\<close> does not change that limit.
\<close>

datatype py_error = ValueError | OverflowError

definition int_max_str_digits :: nat where
  "int_max_str_digits = 4300"

definition digits_value :: "tables \<Rightarrow> ustr \<Rightarrow> nat" where
  "digits_value U s = foldl (\<lambda>a d. 10 * a + digit_value U d) 0 s"

definition int_of_digits :: "tables \<Rightarrow> ustr \<Rightarrow> py_error + nat" where
  "int_of_digits U s =
     (if length s > int_max_str_digits then Inl ValueError else Inr (digits_value U s))"

section \<open>The fragment of \<open>re\<close> that the patterns use\<close>

text \<open>
  Every pattern of \<open>app.py\<close> is a sequence of items; an item is a character class (a
  literal, \<open>\d\<close>, \<open>\s\<close>, \<open>\w\<close>, or a bracket set of these) under one of the greedy
  quantifiers (exactly once, \<open>*\<close>, \<open>+\<close>), possibly wrapped in a capture group.
  \<open>re.search\<close> is the backtracking matcher: the start positions are tried from the
  left, and at a start position a greedy item first takes the longest run and gives
  characters back one at a time while the rest of the pattern fails. The flag \<open>ic\<close> is
  \<open>re.I\<close>.
\<close>

datatype atom = Chr char | CatDigit | CatSpace | CatWord

datatype quant = Once | Star | Plus

datatype item = Item quant "atom list" bool

fun atom_match :: "tables \<Rightarrow> bool \<Rightarrow> atom \<Rightarrow> nat \<Rightarrow> bool" where
  "atom_match U ic (Chr c) x = (if ic then uni_icase U (of_char c) x else x = of_char c)"
| "atom_match U ic CatDigit x = is_digit U x"
| "atom_match U ic CatSpace x = is_space U x"
| "atom_match U ic CatWord x = is_word U x"

definition in_class :: "tables \<Rightarrow> bool \<Rightarrow> atom list \<Rightarrow> nat \<Rightarrow> bool" where
  "in_class U ic as x = list_ex (\<lambda>a. atom_match U ic a x) as"

text \<open>The ways to cut a run of class characters off the front, the longest run first.\<close>

fun splits :: "('a \<Rightarrow> bool) \<Rightarrow> 'a list \<Rightarrow> ('a list \<times> 'a list) list" where
  "splits P [] = [([], [])]"
| "splits P (x # xs) =
     (if P x then map (\<lambda>(u, r). (x # u, r)) (splits P xs) @ [([], x # xs)]
      else [([], x # xs)])"

fun choices :: "quant \<Rightarrow> ('a \<Rightarrow> bool) \<Rightarrow> 'a list \<Rightarrow> ('a list \<times> 'a list) list" where
  "choices Once P s = (case s of [] \<Rightarrow> [] | x # xs \<Rightarrow> if P x then [([x], xs)] else [])"
| "choices Star P s = splits P s"
| "choices Plus P s = filter (\<lambda>(u, r). u \<noteq> []) (splits P s)"

fun first_some :: "('a \<Rightarrow> 'b option) \<Rightarrow> 'a list \<Rightarrow> 'b option" where
  "first_some f [] = None"
| "first_some f (x # xs) = (case f x of Some y \<Rightarrow> Some y | None \<Rightarrow> first_some f xs)"

text \<open>A match at the front of the text: the texts of the capture groups, in order.\<close>

fun match_items :: "tables \<Rightarrow> bool \<Rightarrow> item list \<Rightarrow> ustr \<Rightarrow> ustr list option" where
  "match_items U ic [] s = Some []"
| "match_items U ic (Item q cls cap # r) s =
     first_some
       (\<lambda>(u, rest). map_option (\<lambda>gs. if cap then u # gs else gs) (match_items U ic r rest))
       (choices q (in_class U ic cls) s)"

fun re_search :: "tables \<Rightarrow> bool \<Rightarrow> item list \<Rightarrow> ustr \<Rightarrow> ustr list option" where
  "re_search U ic p [] = match_items U ic p []"
| "re_search U ic p (x # xs) =
     (case match_items U ic p (x # xs) of
        Some gs \<Rightarrow> Some gs
      | None \<Rightarrow> re_search U ic p xs)"

definition lit :: "string \<Rightarrow> item list" where
  "lit s = map (\<lambda>c. Item Once [Chr c] False) s"

section \<open>HELPERS: the extractors\<close>

text \<open>
  \<open>m.group(1)\<close> of a match. Every pattern below has exactly one group, which takes part
  in every match, so the list is never empty where \<open>group1\<close> is applied.
\<close>

definition group1 :: "ustr list \<Rightarrow> ustr" where
  "group1 gs = (case gs of g # _ \<Rightarrow> g | [] \<Rightarrow> [])"

text \<open>\<open>r'(\d+)\s*kcal'\<close>\<close>

definition kcal_pattern :: "item list" where
  "kcal_pattern = [Item Plus [CatDigit] True, Item Star [CatSpace] False] @ lit ''kcal''"

text \<open>
  \<open>extract_calories\<close>: \<open>int(m.group(1)) if m else 0\<close>, on the characters of the text.
  The result is the integer, or the exception that \<open>int\<close> raises.
\<close>

definition extract_calories :: "tables \<Rightarrow> ustr \<Rightarrow> py_error + nat" where
  "extract_calories U t =
     (case re_search U True kcal_pattern t of
        None \<Rightarrow> Inr 0
      | Some gs \<Rightarrow> int_of_digits U (group1 gs))"

text \<open>\<open>r'Protein[:\s]+(\d+)'\<close>, \<open>r'Carb\w*[:\s]+(\d+)'\<close> and \<open>r'Fat\w*[:\s]+(\d+)'\<close>\<close>

definition protein_pattern :: "item list" where
  "protein_pattern =
     lit ''Protein'' @ [Item Plus [Chr CHR '':'', CatSpace] False, Item Plus [CatDigit] True]"

definition carb_pattern :: "item list" where
  "carb_pattern =
     lit ''Carb'' @ [Item Star [CatWord] False, Item Plus [Chr CHR '':'', CatSpace] False,
                     Item Plus [CatDigit] True]"

definition fat_pattern :: "item list" where
  "fat_pattern =
     lit ''Fat'' @ [Item Star [CatWord] False, Item Plus [Chr CHR '':'', CatSpace] False,
                    Item Plus [CatDigit] True]"

text \<open>
  \<open>extract_macros\<close> returns a 3-tuple whose components are \<open>None\<close> or an integer:
  \<open>if not (p and c and f): return None, None, None\<close>, else the three groups parsed by
  \<open>int\<close> from the left, the first exception ending the call.
\<close>

definition extract_macros ::
  "tables \<Rightarrow> ustr \<Rightarrow> py_error + (nat option \<times> nat option \<times> nat option)" where
  "extract_macros U t =
     (let p = re_search U True protein_pattern t;
          c = re_search U True carb_pattern t;
          f = re_search U True fat_pattern t
      in case (p, c, f) of
           (Some gp, Some gc, Some gf) \<Rightarrow>
             (case int_of_digits U (group1 gp) of
                Inl e \<Rightarrow> Inl e
              | Inr vp \<Rightarrow>
                 (case int_of_digits U (group1 gc) of
                    Inl e \<Rightarrow> Inl e
                  | Inr vc \<Rightarrow>
                     (case int_of_digits U (group1 gf) of
                        Inl e \<Rightarrow> Inl e
                      | Inr vf \<Rightarrow> Inr (Some vp, Some vc, Some vf))))
         | _ \<Rightarrow> Inr (None, None, None))"

section \<open>PDF CLEANING\<close>

text \<open>
  \<open>str.replace(old, new)\<close>: the occurrences of \<open>old\<close> are replaced from the left and do
  not overlap; an empty \<open>old\<close> matches before every character and at the end.
\<close>

function str_replace :: "string \<Rightarrow> string \<Rightarrow> string \<Rightarrow> string" where
  "str_replace old new s =
     (if s = [] then (if old = [] then new else [])
      else if old = [] then new @ hd s # str_replace old new (tl s)
      else if take (length old) s = old then new @ str_replace old new (drop (length old) s)
      else hd s # str_replace old new (tl s))"
  by pat_completeness auto
termination
  by (relation "measure (\<lambda>(old, new, s). length s)") auto

text \<open>
  \<open>html.escape(s)\<close> with its default \<open>quote=True\<close>: five replacements in this order, the
  ampersand first.
\<close>

definition html_escape :: "string \<Rightarrow> string" where
  "html_escape s =
     str_replace [CHR 0x27] ''&#x27;''
       (str_replace [CHR 0x22] ''&quot;''
         (str_replace ''>'' ''&gt;''
           (str_replace ''<'' ''&lt;''
             (str_replace ''&'' ''&amp;'' s))))"

definition clean_text :: "string \<Rightarrow> string" where
  "clean_text t = str_replace ''*'' [] (str_replace ''**'' [] (html_escape t))"

text \<open>\<open>s.split(sep)\<close> for a separator of one character; the result is never empty.\<close>

fun str_split :: "char \<Rightarrow> string \<Rightarrow> string list" where
  "str_split sep [] = [[]]"
| "str_split sep (c # cs) =
     (if c = sep then [] # str_split sep cs
      else (case str_split sep cs of
              l # ls \<Rightarrow> (c # l) # ls
            | [] \<Rightarrow> [[c]]))"

text \<open>\<open>s.strip()\<close>, on the characters of \<open>s\<close>: the white space at both ends is removed.\<close>

definition str_strip :: "tables \<Rightarrow> ustr \<Rightarrow> ustr" where
  "str_strip U s = rev (dropWhile (is_space U) (rev (dropWhile (is_space U) s)))"

section \<open>The report\<close>

text \<open>
  A \<open>datetime\<close> as \<open>datetime.now()\<close> returns it, and \<open>strftime('%d-%m-%Y %H:%M')\<close>:
  day, month, hour and minute padded to two digits, the year to four (the years 1000
  to 9999 print their own four digits).
\<close>

record datetime =
  year :: nat
  month :: nat
  day :: nat
  hour :: nat
  minute :: nat
  second :: nat
  microsecond :: nat

fun str_nat :: "nat \<Rightarrow> string" where
  "str_nat n =
     (if n < 10 then [''0123456789'' ! n]
      else str_nat (n div 10) @ [''0123456789'' ! (n mod 10)])"

definition zero_pad :: "nat \<Rightarrow> string \<Rightarrow> string" where
  "zero_pad k s = replicate (k - length s) CHR ''0'' @ s"

definition strftime_dmY_HM :: "datetime \<Rightarrow> string" where
  "strftime_dmY_HM dt =
     zero_pad 2 (str_nat (day dt)) @ ''-'' @ zero_pad 2 (str_nat (month dt)) @ ''-'' @
     zero_pad 4 (str_nat (year dt)) @ '' '' @
     zero_pad 2 (str_nat (hour dt)) @ '':'' @ zero_pad 2 (str_nat (minute dt))"

text \<open>
  \<open>generate_pdf\<close> builds the list \<open>story\<close> of flowables and hands it to reportlab, which
  lays it out into the bytes of the buffer. The model is the story: it is what the
  function decides; the layout is the library's. The clock is an argument.
\<close>

datatype style = Title | Normal | Italic | NormalText

datatype flowable = Paragraph string style | Spacer nat nat

definition report_title :: string where
  "report_title = ''NutriVision '' @ [CHR 0xE2, CHR 0x80, CHR 0x93] @ '' Nutrition Report''"

definition report_footer :: string where
  "report_footer = ''Generated using NutriVision App''"

text \<open>
  The loop \<open>for line in clean_text(text).split("\n")\<close>: a line whose \<open>strip()\<close> is not
  empty appends a paragraph and a spacer to the story.
\<close>

fun add_lines :: "tables \<Rightarrow> string list \<Rightarrow> flowable list \<Rightarrow> flowable list" where
  "add_lines U [] story = story"
| "add_lines U (line # ls) story =
     add_lines U ls
       (if str_strip U (code_points line) \<noteq> []
        then story @ [Paragraph line NormalText, Spacer 1 6]
        else story)"

definition generate_pdf :: "tables \<Rightarrow> string \<Rightarrow> datetime \<Rightarrow> flowable list" where
  "generate_pdf U t now =
     (let story = [Paragraph report_title Title, Spacer 1 10,
                   Paragraph (''Generated on: '' @ strftime_dmY_HM now) Normal, Spacer 1 14];
          story = add_lines U (str_split nl (clean_text t)) story
      in story @ [Spacer 1 20, Paragraph report_footer Italic])"

section \<open>The share link\<close>

text \<open>
  \<open>urllib.parse.quote(text)\<close> with its default \<open>safe='/'\<close>: the text is encoded as
  UTF-8 (the model's strings already are), and every byte that is not a letter, a digit,
  one of \<open>_.-~\<close> or \<open>/\<close> becomes \<open>%XX\<close> with upper-case hexadecimal digits.
\<close>

definition always_safe :: "char \<Rightarrow> bool" where
  "always_safe c =
     (c \<in> set ''ABCDEFGHIJKLMNOPQRSTUVWXYZabcdefghijklmnopqrstuvwxyz0123456789_.-~'')"

definition hex_digit :: "nat \<Rightarrow> char" where
  "hex_digit n = ''0123456789ABCDEF'' ! n"

definition quote_byte :: "char \<Rightarrow> string" where
  "quote_byte c =
     (if always_safe c \<or> c = CHR ''/'' then [c]
      else [CHR ''%'', hex_digit (of_char c div 16), hex_digit (of_char c mod 16)])"

definition quote :: "string \<Rightarrow> string" where
  "quote s = concat (map quote_byte s)"

definition whatsapp_share :: "string \<Rightarrow> string" where
  "whatsapp_share t = ''https://wa.me/?text='' @ quote t"

definition APP_URL :: string where
  "APP_URL = ''https://nutri-app.onrender.com''"

text \<open>The f-string \<open>share_text\<close> of the Analyse Food handler, and the link made from it.\<close>

definition share_text :: "string \<Rightarrow> string \<Rightarrow> string" where
  "share_text user result =
     [nl] @ report_title @ [nl, nl] @ ''User: '' @ user @ [nl, nl] @ result @ [nl, nl] @
     ''Download full PDF:'' @ [nl] @ APP_URL @ [nl]"

definition share_link :: "string \<Rightarrow> string \<Rightarrow> string" where
  "share_link user result = whatsapp_share (share_text user result)"

section \<open>DATABASE: the history table\<close>

text \<open>
  A row of \<open>history(id, username, date, meal, calories, details)\<close>. The table is the list
  of its rows in the order of insertion. \<open>INSERT\<close> gives the new row the next id; the
  \<open>sqlite3\<close> module refuses to bind an integer above \<open>2^63 - 1\<close> (\<open>OverflowError\<close>), which
  \<open>extract_calories\<close> can return for a long run of digits. Running out of 64-bit row ids
  is not part of the model.
\<close>

record history_row =
  row_id :: nat
  username :: string
  date :: string
  meal :: string
  calories :: nat
  details :: string

definition next_id :: "history_row list \<Rightarrow> nat" where
  "next_id rows = Suc (fold max (map row_id rows) 0)"

definition history_insert ::
  "string \<Rightarrow> string \<Rightarrow> string \<Rightarrow> nat \<Rightarrow> string \<Rightarrow> history_row list
     \<Rightarrow> py_error + history_row list" where
  "history_insert u d m c det rows =
     (if c > 9223372036854775807 then Inl OverflowError
      else Inr (rows @ [\<lparr>row_id = next_id rows, username = u, date = d, meal = m,
                         calories = c, details = det\<rparr>]))"

text \<open>
  \<open>SELECT date, meal, calories FROM history WHERE username=? ORDER BY date DESC\<close>.
  The column \<open>date\<close> is \<open>TEXT\<close>: SQLite compares it byte by byte, which is the
  lexicographic order of strings. SQL leaves the order of rows with equal dates open;
  the model keeps them in table order, and no theorem below depends on that.
\<close>

fun insert_desc ::
  "string \<times> string \<times> nat \<Rightarrow> (string \<times> string \<times> nat) list \<Rightarrow> (string \<times> string \<times> nat) list" where
  "insert_desc r [] = [r]"
| "insert_desc r (x # xs) = (if fst x \<le> fst r then r # x # xs else x # insert_desc r xs)"

fun order_by_date_desc :: "(string \<times> string \<times> nat) list \<Rightarrow> (string \<times> string \<times> nat) list" where
  "order_by_date_desc [] = []"
| "order_by_date_desc (r # rs) = insert_desc r (order_by_date_desc rs)"

definition history_query :: "history_row list \<Rightarrow> string \<Rightarrow> (string \<times> string \<times> nat) list" where
  "history_query rows owner =
     order_by_date_desc
       (map (\<lambda>r. (date r, meal r, calories r)) (filter (\<lambda>r. username r = owner) rows))"

text \<open>
  The Analyse Food handler's insert: \<open>calories = extract_calories(result)\<close> comes first
  and an exception of it ends the handler; the owner is the session's user, the date is
  the formatted clock, the meal is \<open>result.split("\n")[0]\<close>.
\<close>

definition first_line :: "string \<Rightarrow> string" where
  "first_line result = (case str_split nl result of l # _ \<Rightarrow> l | [] \<Rightarrow> [])"

definition analyse_insert ::
  "tables \<Rightarrow> string \<Rightarrow> datetime \<Rightarrow> string \<Rightarrow> history_row list
     \<Rightarrow> py_error + history_row list" where
  "analyse_insert U user now result rows =
     (case extract_calories U (code_points result) of
        Inl e \<Rightarrow> Inl e
      | Inr kcal \<Rightarrow>
          history_insert user (strftime_dmY_HM now) (first_line result) kcal result rows)"

section \<open>PIE CHART\<close>



section \<open>Notions of the specification\<close>

text \<open>
  A word of the text equals a word of the pattern up to the case of its letters: the
  characters match one by one under \<open>re.I\<close>.
\<close>

definition ci_eq :: "tables \<Rightarrow> ustr \<Rightarrow> string \<Rightarrow> bool" where
  "ci_eq U kw w \<longleftrightarrow> list_all2 (\<lambda>x c. uni_icase U (of_char c) x) kw w"

text \<open>
  The text \<open>s\<close> starts with the digits \<open>ds\<close>, optional white space and the word \<open>w\<close>
  in any case: an occurrence of \<open><digits> kcal\<close> when \<open>w\<close> is \<open>kcal\<close>. The occurrence
  at index \<open>i\<close> of a text is the one that its suffix from \<open>i\<close> starts with.
\<close>

definition number_unit :: "tables \<Rightarrow> string \<Rightarrow> ustr \<Rightarrow> ustr \<Rightarrow> bool" where
  "number_unit U w s ds \<longleftrightarrow>
     (\<exists>ws kw rest. s = ds @ ws @ kw @ rest \<and> ds \<noteq> [] \<and> list_all (is_digit U) ds \<and>
        list_all (is_space U) ws \<and> ci_eq U kw w)"

definition kcal_match_at :: "tables \<Rightarrow> ustr \<Rightarrow> nat \<Rightarrow> ustr \<Rightarrow> bool" where
  "kcal_match_at U t i ds \<longleftrightarrow> i \<le> length t \<and> number_unit U ''kcal'' (drop i t) ds"

text \<open>
  The same occurrence, decided from the left: the longest run of digits, the longest run
  of white space, then the word. \<open>plain_word\<close> holds of a word of ASCII letters such as
  \<open>kcal\<close>.
\<close>

definition unit_at :: "tables \<Rightarrow> string \<Rightarrow> ustr \<Rightarrow> bool" where
  "unit_at U w s \<longleftrightarrow> takeWhile (is_digit U) s \<noteq> [] \<and>
     ci_eq U (take (length w) (dropWhile (is_space U) (dropWhile (is_digit U) s))) w"

definition plain_word :: "string \<Rightarrow> bool" where
  "plain_word w \<longleftrightarrow> w \<noteq> [] \<and> list_all (\<lambda>c. ascii_letter (of_char c)) w"

definition unit_pattern :: "string \<Rightarrow> item list" where
  "unit_pattern w = [Item Plus [CatDigit] True, Item Star [CatSpace] False] @ lit w"

text \<open>
  A labeled integer field at the front of \<open>s\<close>: the label in any case, a suffix of word
  characters where the label may have one (\<open>Carbs\<close>, \<open>Fats\<close>), at least one colon or
  white space, and the digits \<open>ds\<close>, which are the whole run of digits there. The field
  occurs in a text when it stands at some index; its first occurrence is the one at the
  least index.
\<close>

definition is_sep :: "tables \<Rightarrow> nat \<Rightarrow> bool" where
  "is_sep U x \<longleftrightarrow> x = 0x3A \<or> is_space U x"

definition labeled_field :: "tables \<Rightarrow> string \<Rightarrow> bool \<Rightarrow> ustr \<Rightarrow> ustr \<Rightarrow> bool" where
  "labeled_field U label suffix_ok s ds \<longleftrightarrow>
     (\<exists>lab sfx sep rest. s = lab @ sfx @ sep @ ds @ rest \<and> ci_eq U lab label \<and>
        list_all (is_word U) sfx \<and> (suffix_ok \<or> sfx = []) \<and>
        sep \<noteq> [] \<and> list_all (is_sep U) sep \<and> ds \<noteq> [] \<and> list_all (is_digit U) ds \<and>
        (rest = [] \<or> \<not> is_digit U (hd rest)))"

definition field_match_at :: "tables \<Rightarrow> string \<Rightarrow> bool \<Rightarrow> ustr \<Rightarrow> nat \<Rightarrow> ustr \<Rightarrow> bool" where
  "field_match_at U label suffix_ok t i ds \<longleftrightarrow>
     i \<le> length t \<and> labeled_field U label suffix_ok (drop i t) ds"

definition field_occurs :: "tables \<Rightarrow> string \<Rightarrow> bool \<Rightarrow> ustr \<Rightarrow> bool" where
  "field_occurs U label suffix_ok t \<longleftrightarrow> (\<exists>i ds. field_match_at U label suffix_ok t i ds)"

definition first_field :: "tables \<Rightarrow> string \<Rightarrow> bool \<Rightarrow> ustr \<Rightarrow> ustr \<Rightarrow> bool" where
  "first_field U label suffix_ok t ds \<longleftrightarrow>
     (\<exists>i. field_match_at U label suffix_ok t i ds \<and>
          (\<forall>j < i. \<forall>ds'. \<not> field_match_at U label suffix_ok t j ds'))"

text \<open>
  The same field, decided from the left: the label, the longest run of word characters
  where a suffix is allowed, the longest run of colons and white space, the longest run
  of digits.
\<close>

definition field_at :: "tables \<Rightarrow> string \<Rightarrow> bool \<Rightarrow> ustr \<Rightarrow> ustr option" where
  "field_at U label suffix_ok s =
     (let r1 = drop (length label) s;
          r2 = (if suffix_ok then dropWhile (is_word U) r1 else r1);
          r3 = dropWhile (is_sep U) r2
      in if ci_eq U (take (length label) s) label \<and> takeWhile (is_sep U) r2 \<noteq> [] \<and>
            takeWhile (is_digit U) r3 \<noteq> []
         then Some (takeWhile (is_digit U) r3) else None)"

definition field_pattern :: "string \<Rightarrow> bool \<Rightarrow> item list" where
  "field_pattern label suffix_ok =
     lit label @ (if suffix_ok then [Item Star [CatWord] False] else []) @
     [Item Plus [Chr CHR '':'', CatSpace] False, Item Plus [CatDigit] True]"

text \<open>
  The class of an item, and a pattern whose literal characters are ASCII, as those of
  \<open>app.py\<close> are.
\<close>

fun item_class :: "item \<Rightarrow> atom list" where
  "item_class (Item q cls cap) = cls"

fun ascii_atom :: "atom \<Rightarrow> bool" where
  "ascii_atom (Chr c) = ((of_char c :: nat) < 128)"
| "ascii_atom a = True"

definition ascii_pattern :: "item list \<Rightarrow> bool" where
  "ascii_pattern p \<longleftrightarrow> list_all (\<lambda>it. list_all ascii_atom (item_class it)) p"

definition ascii_text :: "ustr \<Rightarrow> bool" where
  "ascii_text t \<longleftrightarrow> list_all (\<lambda>x. x < 128) t"

text \<open>
  The order of two date-times in time, as \<open>datetime\<close> objects compare: field by field
  from the year down.
\<close>

definition datetime_key :: "datetime \<Rightarrow> nat list" where
  "datetime_key dt = [year dt, month dt, day dt, hour dt, minute dt, second dt, microsecond dt]"

definition earlier :: "datetime \<Rightarrow> datetime \<Rightarrow> bool" where
  "earlier a b \<longleftrightarrow> datetime_key a < datetime_key b"

text \<open>
  A line is blank when all its characters are white space. The paragraphs of a story,
  and the texts of its body paragraphs.
\<close>

definition blank :: "tables \<Rightarrow> string \<Rightarrow> bool" where
  "blank U l \<longleftrightarrow> list_all (is_space U) (code_points l)"


fun paragraphs :: "flowable list \<Rightarrow> (string \<times> style) list" where
  "paragraphs [] = []"
| "paragraphs (Paragraph s st # fs) = (s, st) # paragraphs fs"
| "paragraphs (Spacer w h # fs) = paragraphs fs"

definition body_texts :: "flowable list \<Rightarrow> string list" where
  "body_texts story = map fst (filter (\<lambda>p. snd p = NormalText) (paragraphs story))"

text \<open>The escape of one character, and the characters that are markup or a marker.\<close>

definition escape_chr :: "char \<Rightarrow> string" where
  "escape_chr c =
     (if c = CHR ''&'' then ''&amp;''
      else if c = CHR ''<'' then ''&lt;''
      else if c = CHR ''>'' then ''&gt;''
      else if c = CHR 0x22 then ''&quot;''
      else if c = CHR 0x27 then ''&#x27;''
      else [c])"

definition markup_or_marker :: "char \<Rightarrow> bool" where
  "markup_or_marker c \<longleftrightarrow> c \<in> set [CHR ''<'', CHR ''>'', CHR 0x22, CHR 0x27, CHR ''*'']"

text \<open>Percent-decoding, the inverse that a receiver of the link applies.\<close>

definition hex_value :: "char \<Rightarrow> nat" where
  "hex_value c = (case map_of (zip ''0123456789ABCDEF'' [0..<16]) c of Some n \<Rightarrow> n | None \<Rightarrow> 0)"

fun unquote :: "string \<Rightarrow> string" where
  "unquote (c # a # b # r) =
     (if c = CHR ''%'' then char_of (16 * hex_value a + hex_value b) # unquote r
      else c # unquote (a # b # r))"
| "unquote s = s"

section \<open>The tables\<close>

lemma all_less_list_all: "(\<forall>j < n. P j) \<longleftrightarrow> list_all P [0..<n]"
  by (auto simp: list_all_iff)

lemma all_le_list_all: "(\<forall>j \<le> n. P j) \<longleftrightarrow> list_all P [0..<Suc n]"
  by (auto simp: list_all_iff less_Suc_eq_le)

lemma upt_unroll: "[i..<j] = (if i < j then i # [Suc i..<j] else [])"
  by (simp add: upt_rec)

lemma sample_sel:
  "uni_decimal sample_unicode = sample_decimal" "uni_space sample_unicode = sample_space"
  "uni_alnum sample_unicode = sample_alnum" "uni_icase sample_unicode = sample_icase"
  by (simp_all add: sample_unicode_def)

lemmas sample_simps = is_digit_def is_space_def is_word_def is_sep_def digit_value_def
  digits_value_def sample_sel sample_decimal_def sample_space_def sample_alnum_def
  sample_icase_def ascii_letter_def ascii_lower_def ci_eq_def unit_at_def field_at_def Let_def
  int_max_str_digits_def int_of_digits_def group1_def utf8_more_def utf8_lead_def

lemma sample_facts: "unicode_facts sample_unicode"
  unfolding unicode_facts_def sample_unicode_def sample_decimal_def sample_space_def
    sample_alnum_def sample_icase_def ascii_letter_def ascii_lower_def
  by (simp, intro conjI allI impI; (elim conjE)?; presburger)

lemma digit_ascii:
  "unicode_facts U \<Longrightarrow> x < 128 \<Longrightarrow> is_digit U x \<longleftrightarrow> 0x30 \<le> x \<and> x \<le> 0x39"
  unfolding unicode_facts_def is_digit_def by simp

lemma digit_value_ascii:
  "unicode_facts U \<Longrightarrow> x < 128 \<Longrightarrow>
   digit_value U x = (if 0x30 \<le> x \<and> x \<le> 0x39 then x - 0x30 else 0)"
  unfolding unicode_facts_def digit_value_def by simp

lemma space_ascii:
  "unicode_facts U \<Longrightarrow> x < 128 \<Longrightarrow>
   is_space U x \<longleftrightarrow> (0x09 \<le> x \<and> x \<le> 0x0D) \<or> (0x1C \<le> x \<and> x \<le> 0x20)"
  unfolding unicode_facts_def is_space_def by simp

lemma word_ascii:
  "unicode_facts U \<Longrightarrow> x < 128 \<Longrightarrow>
   is_word U x \<longleftrightarrow> (0x30 \<le> x \<and> x \<le> 0x39) \<or> ascii_letter x \<or> x = 0x5F"
  unfolding unicode_facts_def is_word_def by auto

lemma icase_other:
  "unicode_facts U \<Longrightarrow> c < 128 \<Longrightarrow> \<not> ascii_letter c \<Longrightarrow> uni_icase U c x \<longleftrightarrow> x = c"
  unfolding unicode_facts_def by simp

lemma icase_ascii:
  "unicode_facts U \<Longrightarrow> ascii_letter c \<Longrightarrow> x < 128 \<Longrightarrow>
   uni_icase U c x \<longleftrightarrow> ascii_lower x = ascii_lower c"
proof -
  assume f: "unicode_facts U" and l: "ascii_letter c" and x: "x < 128"
  from l have "c < 128" by (auto simp: ascii_letter_def)
  with f l x show ?thesis unfolding unicode_facts_def by simp
qed

lemma digit_not_space: "unicode_facts U \<Longrightarrow> is_digit U x \<Longrightarrow> \<not> is_space U x"
  unfolding unicode_facts_def is_digit_def is_space_def by simp

lemma space_not_alnum: "unicode_facts U \<Longrightarrow> is_space U x \<Longrightarrow> \<not> uni_alnum U x"
  unfolding unicode_facts_def is_space_def by simp

lemma letter_not_digit:
  "unicode_facts U \<Longrightarrow> ascii_letter c \<Longrightarrow> uni_icase U c x \<Longrightarrow> \<not> is_digit U x"
  unfolding unicode_facts_def is_digit_def by simp

lemma letter_not_space:
  "unicode_facts U \<Longrightarrow> ascii_letter c \<Longrightarrow> uni_icase U c x \<Longrightarrow> \<not> is_space U x"
  unfolding unicode_facts_def is_space_def by simp

lemma sep_not_digit: "unicode_facts U \<Longrightarrow> is_sep U x \<Longrightarrow> \<not> is_digit U x"
proof
  assume f: "unicode_facts U" and s: "is_sep U x" and d: "is_digit U x"
  from s consider "x = 0x3A" | "is_space U x" unfolding is_sep_def by blast
  then show False
  proof cases
    case 1
    with digit_ascii [OF f, of x] d show False by simp
  next
    case 2
    with digit_not_space [OF f d] show False by simp
  qed
qed

lemma word_not_sep: "unicode_facts U \<Longrightarrow> is_word U x \<Longrightarrow> \<not> is_sep U x"
proof
  assume f: "unicode_facts U" and w: "is_word U x" and s: "is_sep U x"
  from s consider "x = 0x3A" | "is_space U x" unfolding is_sep_def by blast
  then show False
  proof cases
    case 1
    with word_ascii [OF f, of x] w show False by (simp add: ascii_letter_def)
  next
    case 2
    from space_not_alnum [OF f 2] w have x: "x = 0x5F" by (simp add: is_word_def)
    with space_ascii [OF f, of x] 2 show False by simp
  qed
qed

section \<open>The matcher, decided from the left\<close>

lemma first_some_append:
  "first_some f (xs @ ys) = (case first_some f xs of Some y \<Rightarrow> Some y | None \<Rightarrow> first_some f ys)"
  by (induction xs) (auto split: option.splits)

lemma first_some_map: "first_some f (map g xs) = first_some (\<lambda>x. f (g x)) xs"
  by (induction xs) (auto split: option.splits)

lemma first_some_filter:
  "first_some f (filter Q xs) = first_some (\<lambda>x. if Q x then f x else None) xs"
  by (induction xs) (auto split: option.splits)

lemma first_some_cong:
  "(\<And>x. x \<in> set xs \<Longrightarrow> f x = g x) \<Longrightarrow> first_some f xs = first_some g xs"
  by (induction xs) (auto split: option.splits)

lemma first_some_SomeD: "first_some f xs = Some y \<Longrightarrow> \<exists>x \<in> set xs. f x = Some y"
  by (induction xs) (auto split: option.splits)

lemma splits_iff: "(u, r) \<in> set (splits P s) \<longleftrightarrow> s = u @ r \<and> list_all P u"
proof (induction s arbitrary: u)
  case Nil
  then show ?case by auto
next
  case (Cons x xs)
  show ?case
  proof (cases u)
    case Nil
    then show ?thesis by auto
  next
    case (Cons y ys)
    then show ?thesis using Cons.IH [of ys] by auto
  qed
qed

lemma choices_append: "(u, r) \<in> set (choices q P s) \<Longrightarrow> s = u @ r"
proof (cases q)
  case Once
  assume "(u, r) \<in> set (choices q P s)"
  with Once show ?thesis by (cases s) (auto split: if_splits)
next
  case Star
  assume "(u, r) \<in> set (choices q P s)"
  with Star show ?thesis by (simp add: splits_iff)
next
  case Plus
  assume "(u, r) \<in> set (choices q P s)"
  with Plus show ?thesis by (simp add: splits_iff)
qed

text \<open>
  A greedy item before a rest of the pattern that cannot start with a character of the
  item's class: giving characters back never helps, so the item takes its longest run.
\<close>

lemma greedy_splits:
  assumes block: "\<And>x xs. P x \<Longrightarrow> F (x # xs) = None"
  shows "first_some
           (\<lambda>(u, rest). if m \<le> length (acc @ u) then map_option (G (acc @ u)) (F rest) else None)
           (splits P s)
       = (if m \<le> length (acc @ takeWhile P s)
          then map_option (G (acc @ takeWhile P s)) (F (dropWhile P s)) else None)"
proof (induction s arbitrary: acc)
  case Nil
  show ?case by (cases "F []") simp_all
next
  case (Cons x xs)
  show ?case
  proof (cases "P x")
    case False
    then show ?thesis by (cases "F (x # xs)") simp_all
  next
    case True
    have e: "(\<lambda>p. case (case p of (u, r) \<Rightarrow> (x # u, r)) of
                (u, rest) \<Rightarrow> if m \<le> length (acc @ u) then map_option (G (acc @ u)) (F rest) else None)
        = (\<lambda>(u, rest). if m \<le> length ((acc @ [x]) @ u)
                        then map_option (G ((acc @ [x]) @ u)) (F rest) else None)"
      by (auto simp: fun_eq_iff)
    have s: "splits P (x # xs) = map (\<lambda>(u, r). (x # u, r)) (splits P xs) @ [([], x # xs)]"
      using True by simp
    have l: "first_some
        (\<lambda>(u, rest). if m \<le> length (acc @ u) then map_option (G (acc @ u)) (F rest) else None)
        [([], x # xs)] = None"
      using block [OF True] by simp
    have "first_some
        (\<lambda>(u, rest). if m \<le> length (acc @ u) then map_option (G (acc @ u)) (F rest) else None)
        (splits P (x # xs))
      = first_some
        (\<lambda>(u, rest). if m \<le> length (acc @ u) then map_option (G (acc @ u)) (F rest) else None)
        (map (\<lambda>(u, r). (x # u, r)) (splits P xs))"
      unfolding s first_some_append l by (simp split: option.splits)
    also have "\<dots> = first_some
        (\<lambda>(u, rest). if m \<le> length ((acc @ [x]) @ u)
                        then map_option (G ((acc @ [x]) @ u)) (F rest) else None)
        (splits P xs)"
      by (simp only: first_some_map e)
    also have "\<dots> = (if m \<le> length ((acc @ [x]) @ takeWhile P xs)
          then map_option (G ((acc @ [x]) @ takeWhile P xs)) (F (dropWhile P xs)) else None)"
      by (rule Cons.IH)
    also have "\<dots> = (if m \<le> length (acc @ takeWhile P (x # xs))
          then map_option (G (acc @ takeWhile P (x # xs))) (F (dropWhile P (x # xs))) else None)"
      using True by simp
    finally show ?thesis .
  qed
qed

lemma greedy_splits0:
  assumes block: "\<And>x xs. P x \<Longrightarrow> F (x # xs) = None"
  shows "first_some
           (\<lambda>(u, rest). if m \<le> length u then map_option (G u) (F rest) else None)
           (splits P s)
       = (if m \<le> length (takeWhile P s)
          then map_option (G (takeWhile P s)) (F (dropWhile P s)) else None)"
  using greedy_splits [of P F m "[]" G s, OF block] unfolding append_Nil .

lemma match_star:
  assumes block: "\<And>x xs. in_class U ic cls x \<Longrightarrow> match_items U ic R (x # xs) = None"
  shows "match_items U ic (Item Star cls cap # R) s
       = map_option (\<lambda>gs. if cap then takeWhile (in_class U ic cls) s # gs else gs)
           (match_items U ic R (dropWhile (in_class U ic cls) s))"
  using greedy_splits0 [of "in_class U ic cls" "match_items U ic R" 0
      "\<lambda>u gs. if cap then u # gs else gs" s, OF block]
  unfolding le0 if_True by simp

lemma match_plus:
  assumes block: "\<And>x xs. in_class U ic cls x \<Longrightarrow> match_items U ic R (x # xs) = None"
  shows "match_items U ic (Item Plus cls cap # R) s
       = (if takeWhile (in_class U ic cls) s = [] then None
          else map_option (\<lambda>gs. if cap then takeWhile (in_class U ic cls) s # gs else gs)
                 (match_items U ic R (dropWhile (in_class U ic cls) s)))"
proof -
  have e: "(\<lambda>x. if (case x of (u, r) \<Rightarrow> u \<noteq> [])
                then (case x of (u, rest) \<Rightarrow>
                        map_option (\<lambda>gs. if cap then u # gs else gs) (match_items U ic R rest))
                else None)
      = (\<lambda>(u, rest). if 1 \<le> length u
                      then map_option (\<lambda>gs. if cap then u # gs else gs)
                             (match_items U ic R rest)
                      else None)"
    by (auto simp: fun_eq_iff Suc_le_eq)
  have t: "1 \<le> length (takeWhile (in_class U ic cls) s) \<longleftrightarrow> takeWhile (in_class U ic cls) s \<noteq> []"
    by (simp add: Suc_le_eq)
  show ?thesis
    using greedy_splits0 [of "in_class U ic cls" "match_items U ic R" 1
        "\<lambda>u gs. if cap then u # gs else gs" s, OF block]
    unfolding t by (simp add: first_some_filter e)
qed

lemma splits_hd: "\<exists>tl. splits P s = (takeWhile P s, dropWhile P s) # tl"
  by (induction s) auto

lemma match_last_plus:
  "match_items U ic [Item Plus cls cap] s
     = (if takeWhile (in_class U ic cls) s = [] then None
        else Some (if cap then [takeWhile (in_class U ic cls) s] else []))"
proof (cases "takeWhile (in_class U ic cls) s = []")
  case True
  have "filter (\<lambda>(u, r). u \<noteq> []) (splits (in_class U ic cls) s) = []"
  proof (rule ccontr)
    assume "filter (\<lambda>(u, r). u \<noteq> []) (splits (in_class U ic cls) s) \<noteq> []"
    then obtain u r where m: "(u, r) \<in> set (splits (in_class U ic cls) s)" and u: "u \<noteq> []"
      by (auto simp: filter_empty_conv)
    from m have s: "s = u @ r" and a: "list_all (in_class U ic cls) u" by (simp_all add: splits_iff)
    from u obtain y ys where "u = y # ys" by (cases u) auto
    with s a have "takeWhile (in_class U ic cls) s \<noteq> []" by simp
    with True show False by simp
  qed
  with True show ?thesis by simp
next
  case False
  obtain tl where "splits (in_class U ic cls) s
      = (takeWhile (in_class U ic cls) s, dropWhile (in_class U ic cls) s) # tl"
    using splits_hd by blast
  with False show ?thesis by simp
qed

lemma match_once:
  "match_items U ic (Item Once cls cap # R) s
     = (case s of [] \<Rightarrow> None
        | x # xs \<Rightarrow> if in_class U ic cls x
                    then map_option (\<lambda>gs. if cap then [x] # gs else gs) (match_items U ic R xs)
                    else None)"
  by (cases s) (simp_all split: option.splits)

lemma ci_eq_Nil [simp]: "ci_eq U kw [] \<longleftrightarrow> kw = []"
  by (simp add: ci_eq_def)

lemma ci_eq_Cons:
  "ci_eq U kw (c # w) \<longleftrightarrow> (\<exists>x kw'. kw = x # kw' \<and> uni_icase U (of_char c) x \<and> ci_eq U kw' w)"
  by (cases kw) (auto simp: ci_eq_def)

lemma ci_eq_length: "ci_eq U kw w \<Longrightarrow> length kw = length w"
  unfolding ci_eq_def by (rule list_all2_lengthD)

lemma ci_eq_nth: "ci_eq U kw w \<Longrightarrow> k < length w \<Longrightarrow> uni_icase U (of_char (w ! k)) (kw ! k)"
  unfolding ci_eq_def by (rule list_all2_nthD2)

lemma in_class_single [simp]:
  "in_class U ic [CatDigit] = is_digit U" "in_class U ic [CatSpace] = is_space U"
  "in_class U ic [CatWord] = is_word U"
  "in_class U True [Chr c] = uni_icase U (of_char c)"
  by (auto simp: in_class_def fun_eq_iff)

lemma match_lit:
  "match_items U True (lit w @ R) s
     = (if ci_eq U (take (length w) s) w then match_items U True R (drop (length w) s) else None)"
proof (induction w arbitrary: s)
  case Nil
  show ?case by (simp add: lit_def)
next
  case (Cons c w)
  have l: "lit (c # w) @ R = Item Once [Chr c] False # (lit w @ R)" by (simp add: lit_def)
  show ?case
  proof (cases s)
    case Nil
    then show ?thesis unfolding l match_once by (simp add: ci_eq_Cons)
  next
    case (Cons x xs)
    then show ?thesis unfolding l match_once
      by (simp add: Cons.IH ci_eq_Cons option.map_ident)
  qed
qed

lemma re_search_None_iff:
  "re_search U ic p s = None \<longleftrightarrow> (\<forall>i \<le> length s. match_items U ic p (drop i s) = None)"
proof (induction s)
  case Nil
  then show ?case by simp
next
  case (Cons x xs)
  have "(\<forall>i \<le> length (x # xs). match_items U ic p (drop i (x # xs)) = None)
      \<longleftrightarrow> match_items U ic p (x # xs) = None \<and> (\<forall>i \<le> length xs. match_items U ic p (drop i xs) = None)"
    (is "?L \<longleftrightarrow> ?R")
  proof
    assume l: ?L
    have "match_items U ic p (x # xs) = None" using l [rule_format, of 0] by simp
    moreover have "\<forall>i \<le> length xs. match_items U ic p (drop i xs) = None"
    proof (intro allI impI)
      fix i assume "i \<le> length xs"
      then show "match_items U ic p (drop i xs) = None" using l [rule_format, of "Suc i"] by simp
    qed
    ultimately show ?R by blast
  next
    assume r: ?R
    show ?L
    proof (intro allI impI)
      fix i assume "i \<le> length (x # xs)"
      then show "match_items U ic p (drop i (x # xs)) = None"
        using r by (cases i) auto
    qed
  qed
  with Cons.IH show ?case by (auto split: option.splits)
qed

lemma re_search_first:
  "i \<le> length s \<Longrightarrow> match_items U ic p (drop i s) = Some gs \<Longrightarrow>
   (\<forall>j < i. match_items U ic p (drop j s) = None) \<Longrightarrow> re_search U ic p s = Some gs"
proof (induction s arbitrary: i)
  case Nil
  then show ?case by simp
next
  case (Cons x xs)
  show ?case
  proof (cases i)
    case 0
    with Cons.prems show ?thesis by simp
  next
    case (Suc k)
    have none0: "match_items U ic p (x # xs) = None"
      using Cons.prems(3) [rule_format, of 0] Suc by simp
    have "\<forall>j < k. match_items U ic p (drop j xs) = None"
    proof (intro allI impI)
      fix j assume "j < k"
      then show "match_items U ic p (drop j xs) = None"
        using Cons.prems(3) [rule_format, of "Suc j"] Suc by simp
    qed
    with Cons.IH [of k] Cons.prems Suc have "re_search U ic p xs = Some gs" by simp
    with none0 show ?thesis by simp
  qed
qed

lemma re_search_SomeD:
  "re_search U ic p s = Some gs \<Longrightarrow>
   \<exists>i \<le> length s. match_items U ic p (drop i s) = Some gs \<and>
      (\<forall>j < i. match_items U ic p (drop j s) = None)"
proof (induction s)
  case Nil
  then show ?case by simp
next
  case (Cons x xs)
  show ?case
  proof (cases "match_items U ic p (x # xs)")
    case (Some g)
    with Cons.prems have "match_items U ic p (drop 0 (x # xs)) = Some gs" by simp
    then show ?thesis by (intro exI [where x = 0]) simp
  next
    case None
    with Cons.prems have "re_search U ic p xs = Some gs" by simp
    from Cons.IH [OF this] obtain i where i: "i \<le> length xs"
      and m: "match_items U ic p (drop i xs) = Some gs"
      and n: "\<forall>j < i. match_items U ic p (drop j xs) = None" by blast
    have "\<forall>j < Suc i. match_items U ic p (drop j (x # xs)) = None"
    proof (intro allI impI)
      fix j assume j: "j < Suc i"
      show "match_items U ic p (drop j (x # xs)) = None"
      proof (cases j)
        case 0
        with None show ?thesis by simp
      next
        case (Suc k)
        with j n show ?thesis by simp
      qed
    qed
    with i m show ?thesis by (intro exI [where x = "Suc i"]) simp
  qed
qed

section \<open>The pattern of a number and its unit\<close>

lemma takeWhile_run: "list_all P ds \<Longrightarrow> (r = [] \<or> \<not> P (hd r)) \<Longrightarrow> takeWhile P (ds @ r) = ds"
  by (induction ds) (auto simp: takeWhile_eq_Nil_iff)

lemma dropWhile_run: "list_all P ds \<Longrightarrow> (r = [] \<or> \<not> P (hd r)) \<Longrightarrow> dropWhile P (ds @ r) = r"
  by (induction ds) (auto simp: dropWhile_eq_self_iff)

lemma take_Cons_pos: "0 < n \<Longrightarrow> take n (x # xs) = x # take (n - 1) xs"
  by (cases n) auto

lemma ci_eq_hd_icase: "ci_eq U (x # r) w \<Longrightarrow> w \<noteq> [] \<Longrightarrow> uni_icase U (of_char (hd w)) x"
  by (cases w) (auto simp: ci_eq_Cons)

lemma plain_word_hd: "plain_word w \<Longrightarrow> ascii_letter (of_char (hd w))"
  unfolding plain_word_def by (cases w) auto

lemma plain_word_nth: "plain_word w \<Longrightarrow> k < length w \<Longrightarrow> ascii_letter (of_char (w ! k))"
  unfolding plain_word_def by (simp add: list_all_length)

lemma ci_eq_take_hd:
  assumes "ci_eq U (take (length w) (x # xs)) w" "plain_word w"
  shows "uni_icase U (of_char (hd w)) x"
proof -
  have w: "w \<noteq> []" "0 < length w" using assms(2) by (auto simp: plain_word_def)
  from assms(1) have "ci_eq U (x # take (length w - 1) xs) w" by (simp add: take_Cons_pos [OF w(2)])
  from ci_eq_hd_icase [OF this w(1)] show ?thesis .
qed

lemma lit_block_space:
  assumes f: "unicode_facts U" and pw: "plain_word w" and x: "is_space U x"
  shows "match_items U True (lit w) (x # xs) = None"
proof -
  have "\<not> ci_eq U (take (length w) (x # xs)) w"
    using ci_eq_take_hd [OF _ pw] letter_not_space [OF f plain_word_hd [OF pw]] x by blast
  then show ?thesis using match_lit [of U w "[]" "x # xs"] by simp
qed

lemma match_space_lit:
  assumes f: "unicode_facts U" and pw: "plain_word w"
  shows "match_items U True (Item Star [CatSpace] False # lit w) s
       = (if ci_eq U (take (length w) (dropWhile (is_space U) s)) w then Some [] else None)"
proof -
  have b: "\<And>x xs. in_class U True [CatSpace] x \<Longrightarrow> match_items U True (lit w) (x # xs) = None"
    using lit_block_space [OF f pw] by simp
  have m: "match_items U True (lit w) (dropWhile (is_space U) s)
      = (if ci_eq U (take (length w) (dropWhile (is_space U) s)) w then Some [] else None)"
    using match_lit [of U w "[]" "dropWhile (is_space U) s"] by simp
  have a: "match_items U True (Item Star [CatSpace] False # lit w) s
      = map_option (\<lambda>gs. if False then takeWhile (in_class U True [CatSpace]) s # gs else gs)
          (match_items U True (lit w) (dropWhile (in_class U True [CatSpace]) s))"
    by (rule match_star [OF b])
  show ?thesis by (simp only: a in_class_single m) (simp add: option.map_ident)
qed

lemma space_lit_block_digit:
  assumes f: "unicode_facts U" and pw: "plain_word w" and x: "is_digit U x"
  shows "match_items U True (Item Star [CatSpace] False # lit w) (x # xs) = None"
proof -
  have d: "dropWhile (is_space U) (x # xs) = x # xs"
    using digit_not_space [OF f x] by simp
  have "\<not> ci_eq U (take (length w) (x # xs)) w"
    using ci_eq_take_hd [OF _ pw] letter_not_digit [OF f plain_word_hd [OF pw]] x by blast
  then show ?thesis unfolding match_space_lit [OF f pw] d by simp
qed

lemma match_unit:
  assumes f: "unicode_facts U" and pw: "plain_word w"
  shows "match_items U True (unit_pattern w) s =
           (if unit_at U w s then Some [takeWhile (is_digit U) s] else None)"
proof -
  have b: "\<And>x xs. in_class U True [CatDigit] x \<Longrightarrow>
      match_items U True (Item Star [CatSpace] False # lit w) (x # xs) = None"
    using space_lit_block_digit [OF f pw] by simp
  have u: "unit_pattern w = Item Plus [CatDigit] True # (Item Star [CatSpace] False # lit w)"
    by (simp add: unit_pattern_def)
  have a: "match_items U True (Item Plus [CatDigit] True # (Item Star [CatSpace] False # lit w)) s
      = (if takeWhile (in_class U True [CatDigit]) s = [] then None
         else map_option (\<lambda>gs. if True then takeWhile (in_class U True [CatDigit]) s # gs else gs)
                (match_items U True (Item Star [CatSpace] False # lit w)
                   (dropWhile (in_class U True [CatDigit]) s)))"
    by (rule match_plus [OF b])
  show ?thesis
    by (simp only: u a in_class_single match_space_lit [OF f pw]) (simp add: unit_at_def)
qed

lemma unit_search_Cons:
  "unicode_facts U \<Longrightarrow> plain_word w \<Longrightarrow>
   re_search U True (unit_pattern w) (x # xs)
     = (if unit_at U w (x # xs) then Some [takeWhile (is_digit U) (x # xs)]
        else re_search U True (unit_pattern w) xs)"
  by (simp add: match_unit)

lemma unit_search_Nil:
  "unicode_facts U \<Longrightarrow> plain_word w \<Longrightarrow> re_search U True (unit_pattern w) [] = None"
  by (simp add: match_unit unit_at_def)

lemma ci_eq_hd:
  assumes f: "unicode_facts U" and c: "ci_eq U kw w" and pw: "plain_word w"
  shows "\<exists>x kw'. kw = x # kw' \<and> \<not> is_digit U x \<and> \<not> is_space U x"
proof -
  from pw obtain c0 w' where w: "w = c0 # w'" and l: "ascii_letter (of_char c0)"
    unfolding plain_word_def by (cases w) auto
  from c obtain x kw' where kw: "kw = x # kw'" and x: "uni_icase U (of_char c0) x"
    unfolding w ci_eq_Cons by blast
  from letter_not_digit [OF f l x] letter_not_space [OF f l x] kw show ?thesis by blast
qed

lemma number_unit_det:
  assumes f: "unicode_facts U" and n: "number_unit U w s ds" and pw: "plain_word w"
  shows "ds = takeWhile (is_digit U) s \<and> unit_at U w s"
proof -
  from n obtain ws kw rest where s: "s = ds @ ws @ kw @ rest" and ds: "ds \<noteq> []" "list_all (is_digit U) ds"
    and ws: "list_all (is_space U) ws" and kw: "ci_eq U kw w"
    unfolding number_unit_def by blast
  from ci_eq_hd [OF f kw pw] obtain x kw' where k: "kw = x # kw'" and xd: "\<not> is_digit U x"
    and xs: "\<not> is_space U x"
    by blast
  have nd: "ws @ kw @ rest = [] \<or> \<not> is_digit U (hd (ws @ kw @ rest))"
    using ws xd k digit_not_space [OF f] by (cases ws) auto
  have t: "takeWhile (is_digit U) s = ds" unfolding s by (rule takeWhile_run [OF ds(2) nd])
  have d: "dropWhile (is_digit U) s = ws @ kw @ rest" unfolding s by (rule dropWhile_run [OF ds(2) nd])
  have d2: "dropWhile (is_space U) (ws @ kw @ rest) = kw @ rest"
    by (rule dropWhile_run [OF ws]) (simp add: k xs)
  have "take (length w) (kw @ rest) = kw" using ci_eq_length [OF kw] by simp
  then show ?thesis unfolding unit_at_def t d d2 using ds kw by simp
qed

lemma unit_at_number_unit:
  assumes "unit_at U w s"
  shows "number_unit U w s (takeWhile (is_digit U) s)"
proof -
  let ?ds = "takeWhile (is_digit U) s"
  let ?r1 = "dropWhile (is_digit U) s"
  let ?ws = "takeWhile (is_space U) ?r1"
  let ?r2 = "dropWhile (is_space U) ?r1"
  let ?kw = "take (length w) ?r2"
  have "s = ?ds @ ?ws @ ?kw @ drop (length w) ?r2" by simp
  moreover have "?ds \<noteq> []" "ci_eq U ?kw w" using assms by (simp_all add: unit_at_def)
  moreover have "list_all (is_digit U) ?ds" "list_all (is_space U) ?ws"
    by (auto simp: list_all_iff dest: set_takeWhileD)
  ultimately show ?thesis unfolding number_unit_def by blast
qed

lemma number_unit_iff:
  "unicode_facts U \<Longrightarrow> plain_word w \<Longrightarrow>
   number_unit U w s ds \<longleftrightarrow> unit_at U w s \<and> ds = takeWhile (is_digit U) s"
  using number_unit_det unit_at_number_unit by blast

lemma search_unit_first:
  assumes "unicode_facts U" "plain_word w" "i \<le> length t" "unit_at U w (drop i t)"
    "\<forall>j < i. \<not> unit_at U w (drop j t)"
  shows "re_search U True (unit_pattern w) t = Some [takeWhile (is_digit U) (drop i t)]"
  by (rule re_search_first [OF assms(3)]) (simp_all add: match_unit [OF assms(1) assms(2)] assms)

lemma search_unit_none:
  assumes "unicode_facts U" "plain_word w" "\<forall>i \<le> length t. \<not> unit_at U w (drop i t)"
  shows "re_search U True (unit_pattern w) t = None"
  unfolding re_search_None_iff using assms by (simp add: match_unit)

lemma unit_at_digits_blocked:
  assumes pw: "plain_word w" and p: "list_all (is_digit U) p"
    and x: "\<not> is_digit U x" "\<not> is_space U x" "\<not> uni_icase U (of_char (hd w)) x"
  shows "\<not> unit_at U w (p @ x # X)"
proof
  assume u: "unit_at U w (p @ x # X)"
  have d: "dropWhile (is_digit U) (p @ x # X) = x # X"
    by (rule dropWhile_run [OF p]) (simp add: x)
  have d2: "dropWhile (is_space U) (x # X) = x # X" using x by simp
  from u have "ci_eq U (take (length w) (x # X)) w" unfolding unit_at_def d d2 by simp
  from ci_eq_take_hd [OF this pw] x(3) show False by simp
qed

lemma unit_at_append_blocked:
  assumes f: "unicode_facts U" and pw: "plain_word w" and np: "\<not> unit_at U w p" and pne: "p \<noteq> []"
    and d: "is_digit U d"
    and T: "dropWhile (is_digit U) (d # T') = x # X"
    and x: "\<not> is_digit U x" "\<not> is_space U x" "\<not> uni_icase U (of_char (hd w)) x"
  shows "\<not> unit_at U w (p @ d # T')"
proof
  assume u: "unit_at U w (p @ d # T')"
  have w: "w \<noteq> []" "0 < length w" using pw by (auto simp: plain_word_def)
  have dsp: "\<not> is_space U d" using d by (rule digit_not_space [OF f])
  show False
  proof (cases "\<forall>y \<in> set p. is_digit U y")
    case True
    then have "dropWhile (is_digit U) (p @ d # T') = x # X"
      using T by (simp add: dropWhile_append2)
    moreover have "dropWhile (is_space U) (x # X) = x # X" using x by simp
    ultimately have "ci_eq U (take (length w) (x # X)) w" using u unfolding unit_at_def by simp
    from ci_eq_take_hd [OF this pw] x(3) show False by simp
  next
    case False
    then obtain y where y: "y \<in> set p" "\<not> is_digit U y" by blast
    let ?p1 = "dropWhile (is_digit U) p"
    have d1: "dropWhile (is_digit U) (p @ d # T') = ?p1 @ d # T'"
      using y by (simp add: dropWhile_append1)
    have t1: "takeWhile (is_digit U) (p @ d # T') = takeWhile (is_digit U) p"
      using y by (simp add: takeWhile_append1)
    show False
    proof (cases "\<forall>z \<in> set ?p1. is_space U z")
      case True
      then have "dropWhile (is_space U) (?p1 @ d # T') = d # T'"
        using dsp by (simp add: dropWhile_append2)
      then have "ci_eq U (take (length w) (d # T')) w" using u unfolding unit_at_def d1 by simp
      from ci_eq_take_hd [OF this pw] letter_not_digit [OF f plain_word_hd [OF pw]] d
      show False by blast
    next
      case False
      then obtain z where z: "z \<in> set ?p1" "\<not> is_space U z" by blast
      let ?p2 = "dropWhile (is_space U) ?p1"
      have d2: "dropWhile (is_space U) (?p1 @ d # T') = ?p2 @ d # T'"
        using z by (simp add: dropWhile_append1)
      from u have c: "ci_eq U (take (length w) (?p2 @ d # T')) w"
        and tn: "takeWhile (is_digit U) p \<noteq> []"
        unfolding unit_at_def d1 d2 t1 by simp_all
      show False
      proof (cases "length w \<le> length ?p2")
        case True
        then have "take (length w) (?p2 @ d # T') = take (length w) ?p2" by simp
        with c tn have "unit_at U w p" unfolding unit_at_def by simp
        with np show False by simp
      next
        case False
        then have k: "length ?p2 < length w" by simp
        have "take (length w) (?p2 @ d # T') ! length ?p2 = (?p2 @ d # T') ! length ?p2"
          using k by (rule nth_take)
        also have "\<dots> = d" by (rule nth_append_length)
        finally have e: "take (length w) (?p2 @ d # T') ! length ?p2 = d" .
        from ci_eq_nth [OF c k] have "uni_icase U (of_char (w ! length ?p2)) d"
          unfolding e .
        from letter_not_digit [OF f plain_word_nth [OF pw k] this] d show False by simp
      qed
    qed
  qed
qed

lemma unit_first_generic:
  assumes f: "unicode_facts U" and pw: "plain_word w" and i: "i \<le> length t"
    and m: "number_unit U w (drop i t) ds"
    and first: "\<forall>j < i. \<forall>ds'. \<not> number_unit U w (drop j t) ds'"
  shows "re_search U True (unit_pattern w) t = Some [ds]"
proof -
  from number_unit_det [OF f m pw] have ds: "ds = takeWhile (is_digit U) (drop i t)"
    and u: "unit_at U w (drop i t)" by simp_all
  have "\<forall>j < i. \<not> unit_at U w (drop j t)"
  proof (intro allI impI)
    fix j assume "j < i"
    with first have "\<not> number_unit U w (drop j t) (takeWhile (is_digit U) (drop j t))" by simp
    then show "\<not> unit_at U w (drop j t)" using unit_at_number_unit by blast
  qed
  from search_unit_first [OF f pw i u this] ds show ?thesis by simp
qed

lemma unit_none_generic:
  assumes f: "unicode_facts U" and pw: "plain_word w"
    and none: "\<forall>i \<le> length t. \<forall>ds. \<not> number_unit U w (drop i t) ds"
  shows "re_search U True (unit_pattern w) t = None"
proof (rule search_unit_none [OF f pw], intro allI impI)
  fix i assume "i \<le> length t"
  with none have "\<not> number_unit U w (drop i t) (takeWhile (is_digit U) (drop i t))" by simp
  then show "\<not> unit_at U w (drop i t)" using unit_at_number_unit by blast
qed

lemma decimal_generic:
  assumes f: "unicode_facts U" and pw: "plain_word w"
    and x: "\<not> is_digit U x" "\<not> is_space U x" "\<not> uni_icase U (of_char (hd w)) x"
    and nopre: "\<forall>i \<le> length pre. \<forall>ds. \<not> number_unit U w (drop i pre) ds"
    and ds1: "ds1 \<noteq> []" "list_all (is_digit U) ds1"
    and R: "number_unit U w R ds2"
  shows "re_search U True (unit_pattern w) (pre @ ds1 @ x # R) = Some [ds2]"
proof -
  let ?t = "pre @ ds1 @ x # R"
  let ?i = "length pre + length ds1 + 1"
  have i: "?i \<le> length ?t" by simp
  have dr: "drop ?i ?t = R" by simp
  have m: "number_unit U w (drop ?i ?t) ds2" unfolding dr by (rule R)
  have first: "\<forall>j < ?i. \<forall>ds'. \<not> number_unit U w (drop j ?t) ds'"
  proof (intro allI impI)
    fix j ds' assume j: "j < ?i"
    have "\<not> unit_at U w (drop j ?t)"
    proof (cases "j < length pre")
      case True
      from ds1 obtain d ds1' where d1: "ds1 = d # ds1'" by (cases ds1) auto
      have e: "drop j ?t = drop j pre @ d # ds1' @ x # R" using True d1 by simp
      have dd: "is_digit U d" using ds1(2) d1 by simp
      have np: "\<not> unit_at U w (drop j pre)"
      proof
        assume "unit_at U w (drop j pre)"
        from unit_at_number_unit [OF this] nopre True show False by simp
      qed
      have pne: "drop j pre \<noteq> []" using True by simp
      have "dropWhile (is_digit U) (ds1 @ x # R) = x # R"
        by (rule dropWhile_run [OF ds1(2)]) (simp add: x)
      then have T: "dropWhile (is_digit U) (d # ds1' @ x # R) = x # R" by (simp add: d1)
      show ?thesis unfolding e by (rule unit_at_append_blocked [OF f pw np pne dd T x])
    next
      case False
      define k where "k = j - length pre"
      have k: "k \<le> length ds1" using j False by (simp add: k_def)
      have e: "drop j ?t = drop k ds1 @ x # R" using False k by (simp add: k_def)
      have "list_all (is_digit U) (drop k ds1)"
        using ds1(2) by (auto simp: list_all_iff dest: in_set_dropD)
      from unit_at_digits_blocked [OF pw this x] show ?thesis unfolding e .
    qed
    then show "\<not> number_unit U w (drop j ?t) ds'" using number_unit_det [OF f _ pw] by blast
  qed
  from unit_first_generic [OF f pw i m first] show ?thesis .
qed

section \<open>The tables on ASCII text\<close>

text \<open>
  On a text of ASCII characters a pattern of ASCII literals finds the same under any
  two tables that have the ASCII part: the result does not depend on the rest of the
  database.
\<close>

lemma splits_cong: "(\<And>x. x \<in> set s \<Longrightarrow> P x = Q x) \<Longrightarrow> splits P s = splits Q s"
  by (induction s) auto

lemma choices_cong: "(\<And>x. x \<in> set s \<Longrightarrow> P x = Q x) \<Longrightarrow> choices q P s = choices q Q s"
proof (cases q)
  case Once
  assume "\<And>x. x \<in> set s \<Longrightarrow> P x = Q x"
  with Once show ?thesis by (cases s) auto
next
  case Star
  assume "\<And>x. x \<in> set s \<Longrightarrow> P x = Q x"
  with Star splits_cong [of s P Q] show ?thesis by simp
next
  case Plus
  assume "\<And>x. x \<in> set s \<Longrightarrow> P x = Q x"
  with Plus splits_cong [of s P Q] show ?thesis by simp
qed

lemma match_items_cong:
  assumes "\<And>it x. it \<in> set p \<Longrightarrow> x \<in> set s \<Longrightarrow>
      in_class U ic (item_class it) x = in_class V ic (item_class it) x"
  shows "match_items U ic p s = match_items V ic p s"
  using assms
proof (induction p arbitrary: s)
  case Nil
  show ?case by simp
next
  case (Cons it r)
  obtain q cls cap where it: "it = Item q cls cap" by (cases it)
  have c: "choices q (in_class U ic cls) s = choices q (in_class V ic cls) s"
    by (rule choices_cong) (use Cons.prems [of it] it in simp)
  have "first_some
          (\<lambda>(u, rest). map_option (\<lambda>gs. if cap then u # gs else gs) (match_items U ic r rest))
          (choices q (in_class V ic cls) s)
      = first_some
          (\<lambda>(u, rest). map_option (\<lambda>gs. if cap then u # gs else gs) (match_items V ic r rest))
          (choices q (in_class V ic cls) s)"
  proof (rule first_some_cong)
    fix y assume y: "y \<in> set (choices q (in_class V ic cls) s)"
    obtain u rest where yr: "y = (u, rest)" by (cases y)
    from choices_append [of u rest q _ s] y yr have "s = u @ rest" by simp
    then have sub: "set rest \<subseteq> set s" by auto
    have "match_items U ic r rest = match_items V ic r rest"
      by (rule Cons.IH) (use Cons.prems sub in auto)
    then show "(case y of (u, rest) \<Rightarrow>
          map_option (\<lambda>gs. if cap then u # gs else gs) (match_items U ic r rest))
        = (case y of (u, rest) \<Rightarrow>
          map_option (\<lambda>gs. if cap then u # gs else gs) (match_items V ic r rest))"
      unfolding yr by simp
  qed
  then show ?case unfolding it by (simp add: c)
qed

lemma re_search_cong:
  assumes "\<And>it x. it \<in> set p \<Longrightarrow> x \<in> set s \<Longrightarrow>
      in_class U ic (item_class it) x = in_class V ic (item_class it) x"
  shows "re_search U ic p s = re_search V ic p s"
  using assms
proof (induction s)
  case Nil
  then show ?case using match_items_cong [of p "[]" U ic V] by simp
next
  case (Cons x xs)
  have m: "match_items U ic p (x # xs) = match_items V ic p (x # xs)"
    by (rule match_items_cong) (use Cons.prems in blast)
  have "re_search U ic p xs = re_search V ic p xs"
    by (rule Cons.IH) (use Cons.prems in auto)
  with m show ?case by (simp split: option.splits)
qed

lemma atom_match_ascii:
  assumes f: "unicode_facts U" and g: "unicode_facts V" and x: "x < 128" and a: "ascii_atom a"
  shows "atom_match U ic a x = atom_match V ic a x"
proof (cases a)
  case (Chr c)
  with a have c: "(of_char c :: nat) < 128" by simp
  show ?thesis
  proof (cases "ascii_letter (of_char c)")
    case True
    from icase_ascii [OF f True x] icase_ascii [OF g True x] Chr show ?thesis by simp
  next
    case False
    from icase_other [OF f c False] icase_other [OF g c False] Chr show ?thesis by simp
  qed
next
  case CatDigit
  with digit_ascii [OF f x] digit_ascii [OF g x] show ?thesis by simp
next
  case CatSpace
  with space_ascii [OF f x] space_ascii [OF g x] show ?thesis by simp
next
  case CatWord
  with word_ascii [OF f x] word_ascii [OF g x] show ?thesis by simp
qed

lemma in_class_ascii:
  assumes "unicode_facts U" "unicode_facts V" "x < 128" "list_all ascii_atom cls"
  shows "in_class U ic cls x = in_class V ic cls x"
  using assms(4) unfolding in_class_def
  by (induction cls) (simp_all add: atom_match_ascii [OF assms(1) assms(2) assms(3)])

lemma re_search_ascii:
  assumes f: "unicode_facts U" and g: "unicode_facts V" and p: "ascii_pattern p"
    and t: "ascii_text t"
  shows "re_search U ic p t = re_search V ic p t"
proof (rule re_search_cong)
  fix it x assume "it \<in> set p" "x \<in> set t"
  with p t have "list_all ascii_atom (item_class it)" "x < 128"
    by (simp_all add: ascii_pattern_def ascii_text_def list_all_iff)
  then show "in_class U ic (item_class it) x = in_class V ic (item_class it) x"
    by (rule in_class_ascii [OF f g, rotated])
qed

lemma match_items_groups:
  "match_items U ic p s = Some gs \<Longrightarrow> g \<in> set gs \<Longrightarrow> set g \<subseteq> set s"
proof (induction p arbitrary: s gs)
  case Nil
  then show ?case by simp
next
  case (Cons it r)
  obtain q cls cap where it: "it = Item q cls cap" by (cases it)
  from Cons.prems(1) obtain u rest where
    mem: "(u, rest) \<in> set (choices q (in_class U ic cls) s)" and
    res: "map_option (\<lambda>gs. if cap then u # gs else gs) (match_items U ic r rest) = Some gs"
    unfolding it by (auto dest!: first_some_SomeD)
  from res obtain gs' where m: "match_items U ic r rest = Some gs'"
    and gs: "gs = (if cap then u # gs' else gs')" by auto
  from choices_append [OF mem] have s: "s = u @ rest" .
  from Cons.prems(2) gs have "g = u \<or> g \<in> set gs'" by (auto split: if_splits)
  then show ?case
  proof
    assume "g = u"
    with s show ?thesis by auto
  next
    assume "g \<in> set gs'"
    from Cons.IH [OF m this] s show ?thesis by auto
  qed
qed

lemma re_search_groups:
  assumes "re_search U ic p t = Some gs" "g \<in> set gs"
  shows "set g \<subseteq> set t"
proof -
  from re_search_SomeD [OF assms(1)] obtain i where "match_items U ic p (drop i t) = Some gs"
    by blast
  from match_items_groups [OF this assms(2)] have "set g \<subseteq> set (drop i t)" .
  also have "\<dots> \<subseteq> set t" by (rule set_drop_subset)
  finally show ?thesis .
qed

lemma digits_value_cong:
  "(\<And>x. x \<in> set s \<Longrightarrow> digit_value U x = digit_value V x) \<Longrightarrow>
   digits_value U s = digits_value V s"
proof -
  assume a: "\<And>x. x \<in> set s \<Longrightarrow> digit_value U x = digit_value V x"
  have "foldl (\<lambda>a d. 10 * a + digit_value U d) n s = foldl (\<lambda>a d. 10 * a + digit_value V d) n s" for n
    using a by (induction s arbitrary: n) simp_all
  then show ?thesis by (simp add: digits_value_def)
qed

lemma int_of_digits_ascii:
  assumes f: "unicode_facts U" and g: "unicode_facts V" and s: "ascii_text s"
  shows "int_of_digits U s = int_of_digits V s"
proof -
  have "digits_value U s = digits_value V s"
  proof (rule digits_value_cong)
    fix x assume "x \<in> set s"
    with s have "x < 128" by (simp add: ascii_text_def list_all_iff)
    from digit_value_ascii [OF f this] digit_value_ascii [OF g this]
    show "digit_value U x = digit_value V x" by simp
  qed
  then show ?thesis by (simp add: int_of_digits_def)
qed

lemma group1_ascii:
  assumes "re_search U ic p t = Some gs" "ascii_text t"
  shows "ascii_text (group1 gs)"
proof (cases gs)
  case Nil
  then show ?thesis by (simp add: group1_def ascii_text_def)
next
  case (Cons g gs')
  with re_search_groups [OF assms(1), of g] have "set g \<subseteq> set t" by simp
  with assms(2) Cons show ?thesis by (auto simp: group1_def ascii_text_def list_all_iff)
qed

lemma code_points_ascii:
  "list_all (\<lambda>b. (of_char b :: nat) < 128) s \<Longrightarrow> code_points s = map of_char s"
  by (induction s) (simp_all add: utf8_more_def utf8_lead_def)

lemma ascii_text_code_points:
  "list_all (\<lambda>b. (of_char b :: nat) < 128) s \<Longrightarrow> ascii_text (code_points s)"
  by (simp add: code_points_ascii ascii_text_def list_all_iff)

section \<open>\<open>extract_calories\<close>\<close>

lemma plain_kcal: "plain_word ''kcal''"
  by code_simp

lemma kcal_pattern_unit: "kcal_pattern = unit_pattern ''kcal''"
  by (simp add: kcal_pattern_def unit_pattern_def)

lemma ascii_kcal_pattern: "ascii_pattern kcal_pattern"
  by code_simp

lemmas kcal_eval = extract_calories_def kcal_pattern_unit
  unit_search_Cons [OF sample_facts plain_kcal] unit_search_Nil [OF sample_facts plain_kcal]

lemma kcal_match_at_iff:
  "unicode_facts U \<Longrightarrow>
   kcal_match_at U t i ds \<longleftrightarrow>
     i \<le> length t \<and> unit_at U ''kcal'' (drop i t) \<and> ds = takeWhile (is_digit U) (drop i t)"
  unfolding kcal_match_at_def by (simp only: number_unit_iff [OF _ plain_kcal])

lemma no_kcal_match_iff:
  "unicode_facts U \<Longrightarrow>
   \<not> (\<exists>i ds. kcal_match_at U t i ds) \<longleftrightarrow>
     list_all (\<lambda>i. \<not> unit_at U ''kcal'' (drop i t)) [0..<Suc (length t)]"
  unfolding all_le_list_all [symmetric] by (simp add: kcal_match_at_iff)

lemma no_kcal_match_sample:
  "list_all (\<lambda>i. \<not> unit_at sample_unicode ''kcal'' (drop i t)) [0..<Suc (length t)] \<Longrightarrow>
   \<not> (\<exists>i ds. kcal_match_at sample_unicode t i ds)"
  by (simp only: no_kcal_match_iff [OF sample_facts])

lemma extract_calories_found:
  assumes "re_search U True kcal_pattern t = Some [ds]"
  shows "extract_calories U t
       = (if length ds \<le> int_max_str_digits then Inr (digits_value U ds) else Inl ValueError)"
  using assms by (simp add: extract_calories_def group1_def int_of_digits_def)

lemma extract_calories_first:
  assumes f: "unicode_facts U" and m: "kcal_match_at U t i ds"
    and first: "\<forall>j < i. \<forall>ds'. \<not> kcal_match_at U t j ds'"
  shows "re_search U True kcal_pattern t = Some [ds]"
proof -
  from m have i: "i \<le> length t" and n: "number_unit U ''kcal'' (drop i t) ds"
    by (simp_all add: kcal_match_at_def)
  have "\<forall>j < i. \<forall>ds'. \<not> number_unit U ''kcal'' (drop j t) ds'"
  proof (intro allI impI)
    fix j ds' assume j: "j < i"
    with first have "\<not> kcal_match_at U t j ds'" by simp
    moreover have "j \<le> length t" using j i by simp
    ultimately show "\<not> number_unit U ''kcal'' (drop j t) ds'" by (simp add: kcal_match_at_def)
  qed
  from unit_first_generic [OF f plain_kcal i n this] show ?thesis
    by (simp only: kcal_pattern_unit)
qed

lemma extract_calories_ascii:
  assumes f: "unicode_facts U" and g: "unicode_facts V" and t: "ascii_text t"
  shows "extract_calories U t = extract_calories V t"
proof -
  have s: "re_search U True kcal_pattern t = re_search V True kcal_pattern t"
    by (rule re_search_ascii [OF f g ascii_kcal_pattern t])
  show ?thesis
  proof (cases "re_search V True kcal_pattern t")
    case None
    with s show ?thesis by (simp add: extract_calories_def)
  next
    case (Some gs)
    from group1_ascii [OF Some t] have "ascii_text (group1 gs)" .
    from int_of_digits_ascii [OF f g this] s Some show ?thesis
      by (simp add: extract_calories_def)
  qed
qed

lemma code_points_append_ascii:
  "list_all (\<lambda>c. (of_char c :: nat) < 128) a \<Longrightarrow> code_points (a @ b) = map of_char a @ code_points b"
  by (induction a) (simp_all add: utf8_more_def utf8_lead_def)

lemma code_points_replicate:
  "code_points (replicate n CHR ''1'' @ b) = replicate n 0x31 @ code_points b"
  by (induction n) (simp_all add: utf8_more_def utf8_lead_def)

lemma number_unitI:
  "ds \<noteq> [] \<Longrightarrow> list_all (is_digit U) ds \<Longrightarrow> list_all (is_space U) ws \<Longrightarrow> ci_eq U kw w \<Longrightarrow>
   number_unit U w (ds @ ws @ kw @ rest) ds"
  unfolding number_unit_def by blast

lemma ci_eq_self:
  assumes f: "unicode_facts U"
  shows "list_all (\<lambda>c. ascii_letter (of_char c)) w \<Longrightarrow> ci_eq U (map of_char w) w"
proof (induction w)
  case Nil
  show ?case by simp
next
  case (Cons c w)
  from Cons.prems have l: "ascii_letter (of_char c)" by simp
  then have "(of_char c :: nat) < 128" by (auto simp: ascii_letter_def)
  from icase_ascii [OF f l this] have "uni_icase U (of_char c) (of_char c)" by simp
  with Cons show ?case by (simp add: ci_eq_Cons)
qed

lemma sample_digit_1: "is_digit sample_unicode 0x31"
  by (simp add: sample_simps)

text \<open>
  Claim C2, as it is stated, fails on the code: a text that starts with 4301 digits and
  \<open> kcal\<close> has an occurrence of the pattern at its first character, and
  \<open>extract_calories\<close> returns no integer for it, since \<open>int\<close> raises \<open>ValueError\<close> on a
  string of more than 4300 digits.
\<close>

theorem extract_calories_digit_limit:
  "kcal_match_at sample_unicode (code_points (replicate 4301 CHR ''1'' @ '' kcal'')) 0
     (code_points (replicate 4301 CHR ''1'')) \<and>
   extract_calories sample_unicode (code_points (replicate 4301 CHR ''1'' @ '' kcal''))
     = Inl ValueError"
proof -
  let ?D = "replicate 4301 (0x31 :: nat)"
  have b: "code_points '' kcal'' = [0x20] @ map of_char ''kcal'' @ []" by code_simp
  have t: "code_points (replicate 4301 CHR ''1'' @ '' kcal'') = ?D @ [0x20] @ map of_char ''kcal'' @ []"
    by (simp only: code_points_replicate b)
  have d: "code_points (replicate 4301 CHR ''1'') = ?D"
    using code_points_replicate [of 4301 "[]"] by simp
  have k: "ci_eq sample_unicode (map of_char ''kcal'') ''kcal''"
    by (rule ci_eq_self [OF sample_facts]) code_simp
  have n: "number_unit sample_unicode ''kcal'' (?D @ [0x20] @ map of_char ''kcal'' @ []) ?D"
  proof (rule number_unitI [OF _ _ _ k])
    show "?D \<noteq> []" by simp
    show "list_all (is_digit sample_unicode) ?D" by (simp add: list_all_iff sample_digit_1)
    show "list_all (is_space sample_unicode) [0x20]" by (simp add: sample_simps)
  qed
  have m: "kcal_match_at sample_unicode (?D @ [0x20] @ map of_char ''kcal'' @ []) 0 ?D"
    unfolding kcal_match_at_def using n by simp
  have "re_search sample_unicode True kcal_pattern (?D @ [0x20] @ map of_char ''kcal'' @ []) = Some [?D]"
    by (rule extract_calories_first [OF sample_facts m]) simp
  from extract_calories_found [OF this]
  have e: "extract_calories sample_unicode (?D @ [0x20] @ map of_char ''kcal'' @ []) = Inl ValueError"
    by (simp add: int_max_str_digits_def)
  from m e show ?thesis unfolding t d by (intro conjI)
qed

text \<open>
  Claim C2, amended. For every text, \<open>extract_calories\<close> looks at the first occurrence of
  digits, optional white space and \<open>kcal\<close> in any case (the occurrence that starts
  leftmost; later ones are ignored): when its run of digits has at most 4300 digits the
  result is the integer of that run, and when the run is longer \<open>int\<close> raises
  \<open>ValueError\<close>. When there is no occurrence the result is 0. In particular it returns
  250 on \<open>Total Calories: 250 kcal\<close>, 0 on \<open>no calorie info\<close> and 120 on
  \<open>Lunch, 120 KCAL\<close>.
\<close>

theorem extract_calories_first_match:
  "unicode_facts U \<Longrightarrow>
   (kcal_match_at U t i ds \<and> (\<forall>j < i. \<forall>ds'. \<not> kcal_match_at U t j ds')
      \<longrightarrow> extract_calories U t
            = (if length ds \<le> int_max_str_digits then Inr (digits_value U ds)
               else Inl ValueError)) \<and>
   ((\<forall>i ds. \<not> kcal_match_at U t i ds) \<longrightarrow> extract_calories U t = Inr 0) \<and>
   extract_calories U (code_points ''Total Calories: 250 kcal'') = Inr 250 \<and>
   extract_calories U (code_points ''no calorie info'') = Inr 0 \<and>
   extract_calories U (code_points ''Lunch, 120 KCAL'') = Inr 120"
proof -
  assume f: "unicode_facts U"
  have c1: "extract_calories U t
        = (if length ds \<le> int_max_str_digits then Inr (digits_value U ds) else Inl ValueError)"
    if a: "kcal_match_at U t i ds \<and> (\<forall>j < i. \<forall>ds'. \<not> kcal_match_at U t j ds')"
  proof -
    from a have m: "kcal_match_at U t i ds"
      and first: "\<forall>j < i. \<forall>ds'. \<not> kcal_match_at U t j ds'" by simp_all
    from extract_calories_found [OF extract_calories_first [OF f m first]] show ?thesis .
  qed
  have c2: "extract_calories U t = Inr 0" if a: "\<forall>i ds. \<not> kcal_match_at U t i ds"
  proof -
    have "\<forall>i \<le> length t. \<forall>ds. \<not> number_unit U ''kcal'' (drop i t) ds"
      using a by (simp add: kcal_match_at_def)
    from unit_none_generic [OF f plain_kcal this]
    show ?thesis by (simp add: extract_calories_def kcal_pattern_unit)
  qed
  have a3: "ascii_text (code_points ''Total Calories: 250 kcal'')" by (simp add: ascii_text_def sample_simps)
  have e3: "extract_calories sample_unicode (code_points ''Total Calories: 250 kcal'') = Inr 250"
    by (simp add: kcal_eval sample_simps del: re_search.simps)
  have c3: "extract_calories U (code_points ''Total Calories: 250 kcal'') = Inr 250"
    using extract_calories_ascii [OF f sample_facts a3] e3 by simp
  have a4: "ascii_text (code_points ''no calorie info'')" by (simp add: ascii_text_def sample_simps)
  have e4: "extract_calories sample_unicode (code_points ''no calorie info'') = Inr 0"
    by (simp add: kcal_eval sample_simps del: re_search.simps)
  have c4: "extract_calories U (code_points ''no calorie info'') = Inr 0"
    using extract_calories_ascii [OF f sample_facts a4] e4 by simp
  have a5: "ascii_text (code_points ''Lunch, 120 KCAL'')" by (simp add: ascii_text_def sample_simps)
  have e5: "extract_calories sample_unicode (code_points ''Lunch, 120 KCAL'') = Inr 120"
    by (simp add: kcal_eval sample_simps del: re_search.simps)
  have c5: "extract_calories U (code_points ''Lunch, 120 KCAL'') = Inr 120"
    using extract_calories_ascii [OF f sample_facts a5] e5 by simp
  from c1 c2 c3 c4 c5 show ?thesis by (intro conjI impI)
qed

text \<open>
  The text \<open>2 eggs: <U+0663>50<U+00A0><U+212A>cal, 1 toast: 80 kcal\<close>, with an
  Arabic-Indic digit three, a no-break space and a Kelvin sign: the first occurrence
  starts at index 8 (the digit at index 0 is not followed by the unit), its digits have
  the value 350, and the later \<open>80 kcal\<close> is ignored.
\<close>

theorem extract_calories_first_match_witness:
  "unicode_facts sample_unicode \<and>
   kcal_match_at sample_unicode
     (code_points (''2 eggs: '' @ [CHR 0xD9, CHR 0xA3] @ ''50'' @ [CHR 0xC2, CHR 0xA0] @
                   [CHR 0xE2, CHR 0x84, CHR 0xAA] @ ''cal, 1 toast: 80 kcal''))
     8 [0x663, 0x35, 0x30] \<and>
   \<not> (\<exists>j < 8. \<exists>ds'. kcal_match_at sample_unicode
     (code_points (''2 eggs: '' @ [CHR 0xD9, CHR 0xA3] @ ''50'' @ [CHR 0xC2, CHR 0xA0] @
                   [CHR 0xE2, CHR 0x84, CHR 0xAA] @ ''cal, 1 toast: 80 kcal'')) j ds') \<and>
   extract_calories sample_unicode
     (code_points (''2 eggs: '' @ [CHR 0xD9, CHR 0xA3] @ ''50'' @ [CHR 0xC2, CHR 0xA0] @
                   [CHR 0xE2, CHR 0x84, CHR 0xAA] @ ''cal, 1 toast: 80 kcal'')) = Inr 350"
proof -
  let ?t = "code_points (''2 eggs: '' @ [CHR 0xD9, CHR 0xA3] @ ''50'' @ [CHR 0xC2, CHR 0xA0] @
                   [CHR 0xE2, CHR 0x84, CHR 0xAA] @ ''cal, 1 toast: 80 kcal'')"
  note f = sample_facts
  have "8 \<le> length ?t \<and> unit_at sample_unicode ''kcal'' (drop 8 ?t) \<and>
      [0x663, 0x35, 0x30] = takeWhile (is_digit sample_unicode) (drop 8 ?t)"
    by (simp add: sample_simps)
  then have h1: "kcal_match_at sample_unicode ?t 8 [0x663, 0x35, 0x30]"
    by (simp only: kcal_match_at_iff [OF f])
  have n: "\<forall>j < 8. \<not> unit_at sample_unicode ''kcal'' (drop j ?t)"
    by (simp only: all_less_list_all, simp add: upt_unroll sample_simps)
  have h2: "\<forall>j < 8. \<forall>ds'. \<not> kcal_match_at sample_unicode ?t j ds'"
    using n by (simp add: kcal_match_at_iff [OF f])
  have imp: "kcal_match_at sample_unicode ?t 8 [0x663, 0x35, 0x30] \<and>
        (\<forall>j < 8. \<forall>ds'. \<not> kcal_match_at sample_unicode ?t j ds')
      \<longrightarrow> extract_calories sample_unicode ?t
            = (if length [0x663, 0x35, 0x30 :: nat] \<le> int_max_str_digits
               then Inr (digits_value sample_unicode [0x663, 0x35, 0x30]) else Inl ValueError)"
    by (rule conjunct1 [OF extract_calories_first_match [OF f]])
  have v: "(if length [0x663, 0x35, 0x30 :: nat] \<le> int_max_str_digits
               then Inr (digits_value sample_unicode [0x663, 0x35, 0x30]) else Inl ValueError)
      = (Inr 350 :: py_error + nat)"
    by (simp add: sample_simps)
  from mp [OF imp conjI [OF h1 h2]] v have r: "extract_calories sample_unicode ?t = Inr 350"
    by simp
  from h2 have h2': "\<not> (\<exists>j < 8. \<exists>ds'. kcal_match_at sample_unicode ?t j ds')" by simp
  from f h1 h2' r show ?thesis by (intro conjI)
qed

section \<open>A decimal calorie figure\<close>

lemma point_facts:
  assumes f: "unicode_facts U"
  shows "\<not> is_digit U 0x2E" "\<not> is_space U 0x2E" "\<not> uni_icase U (of_char (hd ''kcal'')) 0x2E"
proof -
  show "\<not> is_digit U 0x2E" using digit_ascii [OF f, of "0x2E"] by simp
  show "\<not> is_space U 0x2E" using space_ascii [OF f, of "0x2E"] by simp
  have l: "ascii_letter (of_char (hd ''kcal''))" by code_simp
  have "ascii_lower 0x2E \<noteq> ascii_lower (of_char (hd ''kcal''))" by code_simp
  with icase_ascii [OF f l, of "0x2E"]
  show "\<not> uni_icase U (of_char (hd ''kcal'')) 0x2E" by simp
qed

lemma decimal_search:
  assumes f: "unicode_facts U"
    and h: "\<not> (\<exists>i ds. kcal_match_at U p i ds)" "d1 \<noteq> []" "list_all (is_digit U) d1"
      "d2 \<noteq> []" "list_all (is_digit U) d2" "list_all (is_space U) sp" "ci_eq U k ''kcal''"
  shows "re_search U True kcal_pattern (p @ d1 @ [0x2E] @ d2 @ sp @ k @ q) = Some [d2]"
proof -
  have nopre: "\<forall>i \<le> length p. \<forall>ds. \<not> number_unit U ''kcal'' (drop i p) ds"
    using h(1) by (simp add: kcal_match_at_def)
  have R: "number_unit U ''kcal'' (d2 @ sp @ k @ q) d2"
    by (rule number_unitI [OF h(4) h(5) h(6) h(7)])
  from decimal_generic [OF f plain_kcal point_facts [OF f] nopre h(2) h(3) R]
  show ?thesis by (simp add: kcal_pattern_unit)
qed

text \<open>
  Claim C10, as it is stated, fails on the code: for the decimal figure \<open>250.\<close> followed
  by 4301 digits and \<open> kcal\<close> no integer is returned, since the run after the point is
  what \<open>int\<close> is given and it raises \<open>ValueError\<close> on more than 4300 digits.
\<close>

theorem extract_calories_decimal_limit:
  "extract_calories sample_unicode
     (code_points (''250.'' @ replicate 4301 CHR ''1'' @ '' kcal'')) = Inl ValueError"
proof -
  let ?D = "replicate 4301 (0x31 :: nat)"
  have b: "code_points '' kcal'' = [0x20] @ map of_char ''kcal'' @ []" by code_simp
  have a: "map of_char ''250.'' = [] @ [0x32, 0x35, 0x30] @ [0x2E :: nat]" by code_simp
  have "code_points (''250.'' @ replicate 4301 CHR ''1'' @ '' kcal'')
      = map of_char ''250.'' @ code_points (replicate 4301 CHR ''1'' @ '' kcal'')"
    by (rule code_points_append_ascii) simp
  then have t: "code_points (''250.'' @ replicate 4301 CHR ''1'' @ '' kcal'')
      = [] @ [0x32, 0x35, 0x30] @ [0x2E] @ ?D @ [0x20] @ map of_char ''kcal'' @ []"
    by (simp only: code_points_replicate a b append_assoc)
  have k: "ci_eq sample_unicode (map of_char ''kcal'') ''kcal''"
    by (rule ci_eq_self [OF sample_facts]) code_simp
  have n: "\<not> (\<exists>i ds. kcal_match_at sample_unicode [] i ds)"
    by (rule no_kcal_match_sample) (simp add: upt_unroll sample_simps)
  have "re_search sample_unicode True kcal_pattern
      ([] @ [0x32, 0x35, 0x30] @ [0x2E] @ ?D @ [0x20] @ map of_char ''kcal'' @ []) = Some [?D]"
  proof (rule decimal_search [OF sample_facts n _ _ _ _ _ k])
    show "[0x32, 0x35, 0x30 :: nat] \<noteq> []" by simp
    show "list_all (is_digit sample_unicode) [0x32, 0x35, 0x30]"
      by (simp add: sample_simps)
    show "?D \<noteq> []" by simp
    show "list_all (is_digit sample_unicode) ?D" by (simp add: list_all_iff sample_digit_1)
    show "list_all (is_space sample_unicode) [0x20]" by (simp add: sample_simps)
  qed
  from extract_calories_found [OF this] show ?thesis
    unfolding t by (simp add: int_max_str_digits_def)
qed

text \<open>
  Claim C10, amended. When the first occurrence of the calorie pattern sits in a decimal
  figure, the extractor reads the digits after the decimal point: for every text made of
  a part with no occurrence, digits, a point, digits, optional white space and \<open>kcal\<close>
  in any case, the result is the integer of the second run of digits when that run has
  at most 4300 digits, and \<open>ValueError\<close> when it is longer. For \<open>250.5 kcal\<close> the result
  is 5, neither 250 nor 0.
\<close>

theorem extract_calories_decimal:
  "unicode_facts U \<Longrightarrow>
   (\<not> (\<exists>i ds. kcal_match_at U pre i ds) \<and> ds1 \<noteq> [] \<and> list_all (is_digit U) ds1 \<and>
    ds2 \<noteq> [] \<and> list_all (is_digit U) ds2 \<and> list_all (is_space U) ws \<and> ci_eq U kw ''kcal''
      \<longrightarrow> extract_calories U (pre @ ds1 @ code_points ''.'' @ ds2 @ ws @ kw @ post)
            = (if length ds2 \<le> int_max_str_digits then Inr (digits_value U ds2)
               else Inl ValueError)) \<and>
   (\<not> (\<exists>i ds. kcal_match_at U pre i ds)
      \<longrightarrow> extract_calories U (pre @ code_points ''250.5 kcal'' @ post) = Inr 5)"
proof -
  assume f: "unicode_facts U"
  have pt: "code_points ''.'' = [0x2E]" by code_simp
  have gen: "extract_calories U (p @ d1 @ code_points ''.'' @ d2 @ sp @ k @ q)
        = (if length d2 \<le> int_max_str_digits then Inr (digits_value U d2) else Inl ValueError)"
    if h: "\<not> (\<exists>i ds. kcal_match_at U p i ds) \<and> d1 \<noteq> [] \<and> list_all (is_digit U) d1 \<and>
      d2 \<noteq> [] \<and> list_all (is_digit U) d2 \<and> list_all (is_space U) sp \<and> ci_eq U k ''kcal''"
    for p d1 d2 sp k q
  proof -
    from h have h': "\<not> (\<exists>i ds. kcal_match_at U p i ds)" "d1 \<noteq> []" "list_all (is_digit U) d1"
      "d2 \<noteq> []" "list_all (is_digit U) d2" "list_all (is_space U) sp" "ci_eq U k ''kcal''"
      by simp_all
    from extract_calories_found [OF decimal_search [OF f h']] show ?thesis unfolding pt .
  qed
  have inst: "extract_calories U (pre @ code_points ''250.5 kcal'' @ post) = Inr 5"
    if h: "\<not> (\<exists>i ds. kcal_match_at U pre i ds)"
  proof -
    have t: "code_points ''250.5 kcal''
        = [0x32, 0x35, 0x30] @ code_points ''.'' @ [0x35] @ [0x20] @ map of_char ''kcal''"
      by code_simp
    have k: "ci_eq U (map of_char ''kcal'') ''kcal''"
      by (rule ci_eq_self [OF f]) code_simp
    have a: "[0x32, 0x35, 0x30 :: nat] \<noteq> []" "list_all (is_digit U) [0x32, 0x35, 0x30]"
      "[0x35 :: nat] \<noteq> []" "list_all (is_digit U) [0x35]" "list_all (is_space U) [0x20]"
      by (simp_all add: digit_ascii [OF f] space_ascii [OF f])
    have v: "digits_value U [0x35] = 5"
      by (simp add: digits_value_def digit_value_ascii [OF f])
    from gen [OF conjI [OF h conjI [OF a(1) conjI [OF a(2) conjI [OF a(3) conjI [OF a(4)
        conjI [OF a(5) k]]]]]], of post] v
    show ?thesis unfolding t by (simp add: int_max_str_digits_def)
  qed
  from gen inst show ?thesis by (intro conjI impI)
qed

text \<open>
  \<open>Total: 250.<U+0665><U+00A0><U+212A>cal approx\<close>, with an Arabic-Indic digit five,
  a no-break space and a Kelvin sign: no occurrence lies in \<open>Total: \<close>, and the result
  is 5.
\<close>

theorem extract_calories_decimal_witness:
  "unicode_facts sample_unicode \<and>
   \<not> (\<exists>i ds. kcal_match_at sample_unicode (code_points ''Total: '') i ds) \<and>
   extract_calories sample_unicode
     (code_points ''Total: '' @ code_points ''250'' @ code_points ''.'' @
      code_points [CHR 0xD9, CHR 0xA5] @ code_points [CHR 0xC2, CHR 0xA0] @
      code_points ([CHR 0xE2, CHR 0x84, CHR 0xAA] @ ''cal'') @ code_points '' approx'')
     = Inr 5"
proof -
  note f = sample_facts
  have h: "\<not> (\<exists>i ds. kcal_match_at sample_unicode (code_points ''Total: '') i ds)"
    by (rule no_kcal_match_sample) (simp add: upt_unroll sample_simps)
  have a: "code_points ''250'' \<noteq> []" "list_all (is_digit sample_unicode) (code_points ''250'')"
    "code_points [CHR 0xD9, CHR 0xA5] \<noteq> []"
    "list_all (is_digit sample_unicode) (code_points [CHR 0xD9, CHR 0xA5])"
    "list_all (is_space sample_unicode) (code_points [CHR 0xC2, CHR 0xA0])"
    "ci_eq sample_unicode (code_points ([CHR 0xE2, CHR 0x84, CHR 0xAA] @ ''cal'')) ''kcal''"
    by (simp_all add: sample_simps)
  have v: "(if length (code_points [CHR 0xD9, CHR 0xA5]) \<le> int_max_str_digits
            then Inr (digits_value sample_unicode (code_points [CHR 0xD9, CHR 0xA5]))
            else Inl ValueError) = (Inr 5 :: py_error + nat)"
    by (simp add: sample_simps)
  have imp: "\<not> (\<exists>i ds. kcal_match_at sample_unicode (code_points ''Total: '') i ds) \<and>
      code_points ''250'' \<noteq> [] \<and> list_all (is_digit sample_unicode) (code_points ''250'') \<and>
      code_points [CHR 0xD9, CHR 0xA5] \<noteq> [] \<and>
      list_all (is_digit sample_unicode) (code_points [CHR 0xD9, CHR 0xA5]) \<and>
      list_all (is_space sample_unicode) (code_points [CHR 0xC2, CHR 0xA0]) \<and>
      ci_eq sample_unicode (code_points ([CHR 0xE2, CHR 0x84, CHR 0xAA] @ ''cal'')) ''kcal''
      \<longrightarrow> extract_calories sample_unicode
            (code_points ''Total: '' @ code_points ''250'' @ code_points ''.'' @
             code_points [CHR 0xD9, CHR 0xA5] @ code_points [CHR 0xC2, CHR 0xA0] @
             code_points ([CHR 0xE2, CHR 0x84, CHR 0xAA] @ ''cal'') @ code_points '' approx'')
          = (if length (code_points [CHR 0xD9, CHR 0xA5]) \<le> int_max_str_digits
             then Inr (digits_value sample_unicode (code_points [CHR 0xD9, CHR 0xA5]))
             else Inl ValueError)"
    by (rule conjunct1 [OF extract_calories_decimal [OF f]])
  from mp [OF imp conjI [OF h conjI [OF a(1) conjI [OF a(2) conjI [OF a(3) conjI [OF a(4)
        conjI [OF a(5) a(6)]]]]]]] v
  have r: "extract_calories sample_unicode
            (code_points ''Total: '' @ code_points ''250'' @ code_points ''.'' @
             code_points [CHR 0xD9, CHR 0xA5] @ code_points [CHR 0xC2, CHR 0xA0] @
             code_points ([CHR 0xE2, CHR 0x84, CHR 0xAA] @ ''cal'') @ code_points '' approx'')
          = Inr 5"
    by simp
  from f h r show ?thesis by (intro conjI)
qed

section \<open>\<open>extract_macros\<close>\<close>

lemma sep_class:
  assumes f: "unicode_facts U"
  shows "in_class U True [Chr CHR '':'', CatSpace] = is_sep U"
proof
  fix x
  have "uni_icase U 0x3A x \<longleftrightarrow> x = 0x3A"
    by (rule icase_other [OF f]) (simp_all add: ascii_letter_def)
  then show "in_class U True [Chr CHR '':'', CatSpace] x = is_sep U x"
    by (simp add: in_class_def is_sep_def)
qed

lemma match_tail:
  assumes f: "unicode_facts U"
  shows "match_items U True [Item Plus [Chr CHR '':'', CatSpace] False, Item Plus [CatDigit] True] s
       = (if takeWhile (is_sep U) s \<noteq> [] \<and> takeWhile (is_digit U) (dropWhile (is_sep U) s) \<noteq> []
          then Some [takeWhile (is_digit U) (dropWhile (is_sep U) s)] else None)"
proof -
  have l: "match_items U True [Item Plus [CatDigit] True] r
      = (if takeWhile (is_digit U) r = [] then None else Some [takeWhile (is_digit U) r])" for r
    using match_last_plus [of U True "[CatDigit]" True r] by simp
  have b: "\<And>x xs. in_class U True [Chr CHR '':'', CatSpace] x \<Longrightarrow>
      match_items U True [Item Plus [CatDigit] True] (x # xs) = None"
    unfolding sep_class [OF f] l using sep_not_digit [OF f] by simp
  have a: "match_items U True [Item Plus [Chr CHR '':'', CatSpace] False, Item Plus [CatDigit] True] s
      = (if takeWhile (in_class U True [Chr CHR '':'', CatSpace]) s = [] then None
         else map_option
                (\<lambda>gs. if False then takeWhile (in_class U True [Chr CHR '':'', CatSpace]) s # gs else gs)
                (match_items U True [Item Plus [CatDigit] True]
                   (dropWhile (in_class U True [Chr CHR '':'', CatSpace]) s)))"
    by (rule match_plus [OF b])
  show ?thesis by (simp only: a sep_class [OF f] l) (simp add: option.map_ident)
qed

lemma tail_block_word:
  assumes f: "unicode_facts U" and x: "is_word U x"
  shows "match_items U True [Item Plus [Chr CHR '':'', CatSpace] False, Item Plus [CatDigit] True]
           (x # xs) = None"
  unfolding match_tail [OF f] using word_not_sep [OF f x] by simp

lemma match_word_tail:
  assumes f: "unicode_facts U"
  shows "match_items U True
           (Item Star [CatWord] False #
              [Item Plus [Chr CHR '':'', CatSpace] False, Item Plus [CatDigit] True]) s
       = match_items U True [Item Plus [Chr CHR '':'', CatSpace] False, Item Plus [CatDigit] True]
           (dropWhile (is_word U) s)"
proof -
  have b: "\<And>x xs. in_class U True [CatWord] x \<Longrightarrow>
      match_items U True [Item Plus [Chr CHR '':'', CatSpace] False, Item Plus [CatDigit] True]
        (x # xs) = None"
    using tail_block_word [OF f] by simp
  have a: "match_items U True
           (Item Star [CatWord] False #
              [Item Plus [Chr CHR '':'', CatSpace] False, Item Plus [CatDigit] True]) s
      = map_option (\<lambda>gs. if False then takeWhile (in_class U True [CatWord]) s # gs else gs)
          (match_items U True [Item Plus [Chr CHR '':'', CatSpace] False, Item Plus [CatDigit] True]
             (dropWhile (in_class U True [CatWord]) s))"
    by (rule match_star [OF b])
  show ?thesis by (simp only: a in_class_single) (simp add: option.map_ident)
qed

lemma match_field:
  assumes f: "unicode_facts U"
  shows "match_items U True (field_pattern label ok) s
       = map_option (\<lambda>ds. [ds]) (field_at U label ok s)"
proof (cases ok)
  case True
  have fp: "field_pattern label True =
      lit label @ (Item Star [CatWord] False #
        [Item Plus [Chr CHR '':'', CatSpace] False, Item Plus [CatDigit] True])"
    by (simp add: field_pattern_def)
  from True have ok: "ok = True" by simp
  show ?thesis
    unfolding ok fp match_lit match_word_tail [OF f] match_tail [OF f]
    by (simp add: field_at_def Let_def)
next
  case False
  then have ok: "ok = False" by simp
  have fp: "field_pattern label False =
      lit label @ [Item Plus [Chr CHR '':'', CatSpace] False, Item Plus [CatDigit] True]"
    by (simp add: field_pattern_def)
  show ?thesis
    unfolding ok fp match_lit match_tail [OF f]
    by (simp add: field_at_def Let_def)
qed

lemma hd_dropWhile_not: "dropWhile P s = [] \<or> \<not> P (hd (dropWhile P s))"
  using hd_dropWhile [of P s] by blast

lemma field_at_labeled:
  assumes a: "field_at U label ok s = Some ds"
  shows "labeled_field U label ok s ds"
proof -
  let ?lab = "take (length label) s"
  let ?r1 = "drop (length label) s"
  let ?sfx = "if ok then takeWhile (is_word U) ?r1 else []"
  let ?r2 = "if ok then dropWhile (is_word U) ?r1 else ?r1"
  let ?sep = "takeWhile (is_sep U) ?r2"
  let ?r3 = "dropWhile (is_sep U) ?r2"
  let ?rest = "dropWhile (is_digit U) ?r3"
  from a have c: "ci_eq U ?lab label" and sep: "?sep \<noteq> []"
    and ds: "ds = takeWhile (is_digit U) ?r3" "takeWhile (is_digit U) ?r3 \<noteq> []"
    by (auto simp: field_at_def Let_def split: if_splits)
  have "?r1 = ?sfx @ ?r2" by simp
  then have "s = ?lab @ ?sfx @ ?r2" by (metis append_take_drop_id)
  moreover have "?r2 = ?sep @ ds @ ?rest" unfolding ds(1) by simp
  ultimately have s: "s = ?lab @ ?sfx @ ?sep @ ds @ ?rest" by simp
  have w: "list_all (is_word U) ?sfx" by (auto simp: list_all_iff dest: set_takeWhileD)
  have o: "ok \<or> ?sfx = []" by simp
  have p: "list_all (is_sep U) ?sep" by (auto simp: list_all_iff dest: set_takeWhileD)
  have d: "ds \<noteq> []" "list_all (is_digit U) ds"
    using ds by (auto simp: list_all_iff dest: set_takeWhileD)
  have r: "?rest = [] \<or> \<not> is_digit U (hd ?rest)" by (rule hd_dropWhile_not)
  show ?thesis
    unfolding labeled_field_def
    by (intro exI [where x = ?lab] exI [where x = ?sfx] exI [where x = ?sep]
          exI [where x = ?rest] conjI s c w o sep p d r)
qed

lemma labeled_field_at:
  assumes f: "unicode_facts U" and a: "labeled_field U label ok s ds"
  shows "field_at U label ok s = Some ds"
proof -
  from a obtain lab sfx sep rest where s: "s = lab @ sfx @ sep @ ds @ rest"
    and c: "ci_eq U lab label" and w: "list_all (is_word U) sfx" and o: "ok \<or> sfx = []"
    and sep: "sep \<noteq> []" "list_all (is_sep U) sep"
    and ds: "ds \<noteq> []" "list_all (is_digit U) ds"
    and r: "rest = [] \<or> \<not> is_digit U (hd rest)"
    unfolding labeled_field_def by blast
  have n: "length lab = length label" by (rule ci_eq_length [OF c])
  have t: "take (length label) s = lab" unfolding s using n by simp
  have r1: "drop (length label) s = sfx @ sep @ ds @ rest" unfolding s using n by simp
  from sep obtain q sep' where q: "sep = q # sep'" and qs: "is_sep U q" by (cases sep) auto
  from ds obtain e ds' where e: "ds = e # ds'" and ed: "is_digit U e" by (cases ds) auto
  have nw: "\<not> is_word U q" using word_not_sep [OF f] qs by blast
  have ns: "\<not> is_sep U e" using sep_not_digit [OF f] ed by blast
  have r2: "(if ok then dropWhile (is_word U) (sfx @ sep @ ds @ rest) else sfx @ sep @ ds @ rest)
      = sep @ ds @ rest"
  proof (cases ok)
    case True
    have "dropWhile (is_word U) (sfx @ sep @ ds @ rest) = sep @ ds @ rest"
      by (rule dropWhile_run [OF w]) (simp add: q nw)
    with True show ?thesis by simp
  next
    case False
    with o show ?thesis by simp
  qed
  have t2: "takeWhile (is_sep U) (sep @ ds @ rest) = sep"
    by (rule takeWhile_run [OF sep(2)]) (simp add: e ns)
  have r3: "dropWhile (is_sep U) (sep @ ds @ rest) = ds @ rest"
    by (rule dropWhile_run [OF sep(2)]) (simp add: e ns)
  have t3: "takeWhile (is_digit U) (ds @ rest) = ds"
    by (rule takeWhile_run [OF ds(2) r])
  show ?thesis
    unfolding field_at_def Let_def t r1 r2 t2 r3 t3 using c sep(1) ds(1) by simp
qed

lemma field_at_iff:
  "unicode_facts U \<Longrightarrow> field_at U label ok s = Some ds \<longleftrightarrow> labeled_field U label ok s ds"
  using field_at_labeled labeled_field_at by blast

lemma field_match_at_iff:
  assumes f: "unicode_facts U"
  shows "field_match_at U label ok t i ds \<longleftrightarrow>
     i \<le> length t \<and> match_items U True (field_pattern label ok) (drop i t) = Some [ds]"
  unfolding field_match_at_def match_field [OF f] field_at_iff [OF f, symmetric] by auto

lemma match_field_group:
  assumes f: "unicode_facts U" and m: "match_items U True (field_pattern label ok) s = Some gs"
  shows "\<exists>ds. gs = [ds]"
  using m unfolding match_field [OF f] by auto

lemma search_first_field:
  assumes f: "unicode_facts U"
  shows "re_search U True (field_pattern label ok) t = Some gs \<longleftrightarrow>
     (\<exists>ds. gs = [ds] \<and> first_field U label ok t ds)"
proof
  assume "re_search U True (field_pattern label ok) t = Some gs"
  from re_search_SomeD [OF this] obtain i where i: "i \<le> length t"
    and m: "match_items U True (field_pattern label ok) (drop i t) = Some gs"
    and n: "\<forall>j < i. match_items U True (field_pattern label ok) (drop j t) = None" by blast
  from match_field_group [OF f m] obtain ds where gs: "gs = [ds]" by blast
  have a: "field_match_at U label ok t i ds"
    unfolding field_match_at_iff [OF f] using i m gs by simp
  have b: "\<forall>j < i. \<forall>ds'. \<not> field_match_at U label ok t j ds'"
    unfolding field_match_at_iff [OF f] using n by simp
  from a b have "first_field U label ok t ds" unfolding first_field_def by blast
  with gs show "\<exists>ds. gs = [ds] \<and> first_field U label ok t ds" by blast
next
  assume "\<exists>ds. gs = [ds] \<and> first_field U label ok t ds"
  then obtain ds i where gs: "gs = [ds]" and a: "field_match_at U label ok t i ds"
    and b: "\<forall>j < i. \<forall>ds'. \<not> field_match_at U label ok t j ds'"
    unfolding first_field_def by blast
  from a have i: "i \<le> length t"
    and m: "match_items U True (field_pattern label ok) (drop i t) = Some gs"
    unfolding field_match_at_iff [OF f] gs by simp_all
  have n: "\<forall>j < i. match_items U True (field_pattern label ok) (drop j t) = None"
  proof (intro allI impI)
    fix j assume j: "j < i"
    show "match_items U True (field_pattern label ok) (drop j t) = None"
    proof (rule ccontr)
      assume "match_items U True (field_pattern label ok) (drop j t) \<noteq> None"
      then obtain g where g: "match_items U True (field_pattern label ok) (drop j t) = Some g"
        by blast
      from match_field_group [OF f g] obtain ds' where "g = [ds']" by blast
      with g j i have "field_match_at U label ok t j ds'"
        unfolding field_match_at_iff [OF f] by simp
      with b j show False by blast
    qed
  qed
  from re_search_first [OF i m n] show "re_search U True (field_pattern label ok) t = Some gs" .
qed

lemma search_none_field:
  assumes f: "unicode_facts U"
  shows "re_search U True (field_pattern label ok) t = None \<longleftrightarrow> \<not> field_occurs U label ok t"
proof
  assume n: "re_search U True (field_pattern label ok) t = None"
  show "\<not> field_occurs U label ok t"
  proof
    assume "field_occurs U label ok t"
    then obtain i ds where "field_match_at U label ok t i ds" unfolding field_occurs_def by blast
    then have "i \<le> length t" "match_items U True (field_pattern label ok) (drop i t) = Some [ds]"
      unfolding field_match_at_iff [OF f] by simp_all
    with n show False unfolding re_search_None_iff by simp
  qed
next
  assume o: "\<not> field_occurs U label ok t"
  show "re_search U True (field_pattern label ok) t = None"
  proof (rule ccontr)
    assume "re_search U True (field_pattern label ok) t \<noteq> None"
    then obtain gs where "re_search U True (field_pattern label ok) t = Some gs" by blast
    then obtain ds where "first_field U label ok t ds" unfolding search_first_field [OF f] by blast
    then have "field_occurs U label ok t" unfolding first_field_def field_occurs_def by blast
    with o show False by simp
  qed
qed

lemma field_occurs_first:
  assumes f: "unicode_facts U"
  shows "field_occurs U label ok t \<longleftrightarrow> (\<exists>ds. first_field U label ok t ds)"
proof
  assume "field_occurs U label ok t"
  then have "re_search U True (field_pattern label ok) t \<noteq> None"
    unfolding search_none_field [OF f] by simp
  then obtain gs where "re_search U True (field_pattern label ok) t = Some gs" by blast
  then show "\<exists>ds. first_field U label ok t ds" unfolding search_first_field [OF f] by blast
next
  assume "\<exists>ds. first_field U label ok t ds"
  then show "field_occurs U label ok t" unfolding first_field_def field_occurs_def by blast
qed

lemma field_search_Cons:
  "unicode_facts U \<Longrightarrow>
   re_search U True (field_pattern w ok) (x # xs)
     = (case field_at U w ok (x # xs) of
          Some ds \<Rightarrow> Some [ds]
        | None \<Rightarrow> re_search U True (field_pattern w ok) xs)"
  by (simp add: match_field split: option.splits)

lemma field_search_Nil:
  "unicode_facts U \<Longrightarrow> re_search U True (field_pattern w ok) [] = None"
  by (simp add: match_field field_at_def)

lemmas field_eval = field_search_Cons [OF sample_facts] field_search_Nil [OF sample_facts]

lemma field_occurs_suffix:
  assumes "labeled_field U label ok s ds"
  shows "field_occurs U label ok (pre @ s)"
proof -
  have "field_match_at U label ok (pre @ s) (length pre) ds"
    unfolding field_match_at_def using assms by simp
  then show ?thesis unfolding field_occurs_def by blast
qed

lemma macro_patterns:
  "protein_pattern = field_pattern ''Protein'' False"
  "carb_pattern = field_pattern ''Carb'' True"
  "fat_pattern = field_pattern ''Fat'' True"
  by (simp_all add: protein_pattern_def carb_pattern_def fat_pattern_def field_pattern_def)

lemma ascii_macro_patterns:
  "ascii_pattern protein_pattern" "ascii_pattern carb_pattern" "ascii_pattern fat_pattern"
  by code_simp+

lemma search_cases:
  assumes f: "unicode_facts U"
  shows "(re_search U True (field_pattern w ok) t = None \<and> \<not> field_occurs U w ok t) \<or>
         (\<exists>ds. re_search U True (field_pattern w ok) t = Some [ds] \<and> first_field U w ok t ds \<and>
               field_occurs U w ok t)"
proof (cases "re_search U True (field_pattern w ok) t")
  case None
  then show ?thesis using search_none_field [OF f, of w ok t] by simp
next
  case (Some gs)
  then obtain ds where gs: "gs = [ds]" and d: "first_field U w ok t ds"
    unfolding search_first_field [OF f] by blast
  from d have "field_occurs U w ok t" using field_occurs_first [OF f] by blast
  with Some gs d show ?thesis by blast
qed

lemma first_field_search:
  "unicode_facts U \<Longrightarrow> first_field U w ok t ds \<Longrightarrow>
   re_search U True (field_pattern w ok) t = Some [ds]"
  using search_first_field by blast

lemma macros_generic:
  assumes f: "unicode_facts U"
    and r: "r = (case (re_search U True (field_pattern w1 o1) t,
                       re_search U True (field_pattern w2 o2) t,
                       re_search U True (field_pattern w3 o3) t) of
                   (Some gp, Some gc, Some gf) \<Rightarrow>
                     (case int_of_digits U (group1 gp) of
                        Inl e \<Rightarrow> Inl e
                      | Inr vp \<Rightarrow>
                         (case int_of_digits U (group1 gc) of
                            Inl e \<Rightarrow> Inl e
                          | Inr vc \<Rightarrow>
                             (case int_of_digits U (group1 gf) of
                                Inl e \<Rightarrow> Inl e
                              | Inr vf \<Rightarrow> Inr (Some vp, Some vc, Some vf))))
                 | _ \<Rightarrow> Inr (None, None, None))"
  shows "(r = Inr (None, None, None) \<longleftrightarrow>
            \<not> (field_occurs U w1 o1 t \<and> field_occurs U w2 o2 t \<and> field_occurs U w3 o3 t)) \<and>
         (first_field U w1 o1 t dp \<and> first_field U w2 o2 t dc \<and> first_field U w3 o3 t df
            \<longrightarrow> r = (if length dp \<le> int_max_str_digits \<and> length dc \<le> int_max_str_digits \<and>
                         length df \<le> int_max_str_digits
                      then Inr (Some (digits_value U dp), Some (digits_value U dc),
                                Some (digits_value U df))
                      else Inl ValueError)) \<and>
         ((\<exists>p c f. r = Inr (Some p, Some c, Some f)) \<longleftrightarrow>
            (\<exists>dp dc df. first_field U w1 o1 t dp \<and> first_field U w2 o2 t dc \<and>
               first_field U w3 o3 t df \<and> length dp \<le> int_max_str_digits \<and>
               length dc \<le> int_max_str_digits \<and> length df \<le> int_max_str_digits)) \<and>
         (\<forall>x. r = Inr x \<longrightarrow> x = (None, None, None) \<or> (\<exists>p c f. x = (Some p, Some c, Some f)))"
proof -
  let ?occ = "field_occurs U w1 o1 t \<and> field_occurs U w2 o2 t \<and> field_occurs U w3 o3 t"
  have u: "first_field U w ok t a \<Longrightarrow> first_field U w ok t b \<Longrightarrow> a = b" for w ok a b
    using first_field_search [OF f, of w ok t a] first_field_search [OF f, of w ok t b] by simp
  have o: "first_field U w ok t a \<Longrightarrow> field_occurs U w ok t" for w ok a
    using field_occurs_first [OF f] by blast
  show ?thesis
  proof (cases ?occ)
    case False
    then have "re_search U True (field_pattern w1 o1) t = None \<or>
        re_search U True (field_pattern w2 o2) t = None \<or>
        re_search U True (field_pattern w3 o3) t = None"
      unfolding search_none_field [OF f] by blast
    then have rn: "r = Inr (None, None, None)" unfolding r by (auto split: option.splits)
    have nf: "\<not> (first_field U w1 o1 t a \<and> first_field U w2 o2 t b \<and> first_field U w3 o3 t c)"
      for a b c using False o by blast
    have c1: "r = Inr (None, None, None) \<longleftrightarrow> \<not> ?occ" using rn False by simp
    have c2: "first_field U w1 o1 t dp \<and> first_field U w2 o2 t dc \<and> first_field U w3 o3 t df
        \<longrightarrow> r = (if length dp \<le> int_max_str_digits \<and> length dc \<le> int_max_str_digits \<and>
                     length df \<le> int_max_str_digits
                  then Inr (Some (digits_value U dp), Some (digits_value U dc),
                            Some (digits_value U df))
                  else Inl ValueError)"
      using nf by blast
    have c3: "(\<exists>p c f. r = Inr (Some p, Some c, Some f)) \<longleftrightarrow>
        (\<exists>dp dc df. first_field U w1 o1 t dp \<and> first_field U w2 o2 t dc \<and>
           first_field U w3 o3 t df \<and> length dp \<le> int_max_str_digits \<and>
           length dc \<le> int_max_str_digits \<and> length df \<le> int_max_str_digits)"
      using nf rn by auto
    have c4: "\<forall>x. r = Inr x \<longrightarrow> x = (None, None, None) \<or> (\<exists>p c f. x = (Some p, Some c, Some f))"
      using rn by simp
    from c1 c2 c3 c4 show ?thesis by (intro conjI)
  next
    case True
    from True search_cases [OF f, of w1 o1 t] obtain d1 where
      s1: "re_search U True (field_pattern w1 o1) t = Some [d1]" and f1: "first_field U w1 o1 t d1"
      by blast
    from True search_cases [OF f, of w2 o2 t] obtain d2 where
      s2: "re_search U True (field_pattern w2 o2) t = Some [d2]" and f2: "first_field U w2 o2 t d2"
      by blast
    from True search_cases [OF f, of w3 o3 t] obtain d3 where
      s3: "re_search U True (field_pattern w3 o3) t = Some [d3]" and f3: "first_field U w3 o3 t d3"
      by blast
    let ?ok = "length d1 \<le> int_max_str_digits \<and> length d2 \<le> int_max_str_digits \<and>
        length d3 \<le> int_max_str_digits"
    have rv: "r = (if ?ok then Inr (Some (digits_value U d1), Some (digits_value U d2),
                                   Some (digits_value U d3))
                   else Inl ValueError)"
      unfolding r s1 s2 s3 by (simp add: group1_def int_of_digits_def)
    have c1: "r = Inr (None, None, None) \<longleftrightarrow> \<not> ?occ" using rv True by (simp split: if_splits)
    have c2: "first_field U w1 o1 t dp \<and> first_field U w2 o2 t dc \<and> first_field U w3 o3 t df
        \<longrightarrow> r = (if length dp \<le> int_max_str_digits \<and> length dc \<le> int_max_str_digits \<and>
                     length df \<le> int_max_str_digits
                  then Inr (Some (digits_value U dp), Some (digits_value U dc),
                            Some (digits_value U df))
                  else Inl ValueError)"
    proof
      assume a: "first_field U w1 o1 t dp \<and> first_field U w2 o2 t dc \<and> first_field U w3 o3 t df"
      then have "dp = d1" "dc = d2" "df = d3" using u f1 f2 f3 by blast+
      with rv show "r = (if length dp \<le> int_max_str_digits \<and> length dc \<le> int_max_str_digits \<and>
                     length df \<le> int_max_str_digits
                  then Inr (Some (digits_value U dp), Some (digits_value U dc),
                            Some (digits_value U df))
                  else Inl ValueError)" by simp
    qed
    have c3: "(\<exists>p c f. r = Inr (Some p, Some c, Some f)) \<longleftrightarrow>
        (\<exists>dp dc df. first_field U w1 o1 t dp \<and> first_field U w2 o2 t dc \<and>
           first_field U w3 o3 t df \<and> length dp \<le> int_max_str_digits \<and>
           length dc \<le> int_max_str_digits \<and> length df \<le> int_max_str_digits)"
    proof
      assume "\<exists>p c f. r = Inr (Some p, Some c, Some f)"
      with rv have ?ok by (simp split: if_splits)
      with f1 f2 f3 show "\<exists>dp dc df. first_field U w1 o1 t dp \<and> first_field U w2 o2 t dc \<and>
           first_field U w3 o3 t df \<and> length dp \<le> int_max_str_digits \<and>
           length dc \<le> int_max_str_digits \<and> length df \<le> int_max_str_digits" by blast
    next
      assume "\<exists>dp dc df. first_field U w1 o1 t dp \<and> first_field U w2 o2 t dc \<and>
           first_field U w3 o3 t df \<and> length dp \<le> int_max_str_digits \<and>
           length dc \<le> int_max_str_digits \<and> length df \<le> int_max_str_digits"
      then obtain dp dc df where a: "first_field U w1 o1 t dp" "first_field U w2 o2 t dc"
        "first_field U w3 o3 t df" and l: "length dp \<le> int_max_str_digits"
        "length dc \<le> int_max_str_digits" "length df \<le> int_max_str_digits" by blast
      from a have "dp = d1" "dc = d2" "df = d3" using u f1 f2 f3 by blast+
      with l have ?ok by simp
      with rv show "\<exists>p c f. r = Inr (Some p, Some c, Some f)" by simp
    qed
    have c4: "\<forall>x. r = Inr x \<longrightarrow> x = (None, None, None) \<or> (\<exists>p c f. x = (Some p, Some c, Some f))"
      using rv by (simp split: if_splits)
    from c1 c2 c3 c4 show ?thesis by (intro conjI)
  qed
qed

lemma extract_macros_unfold:
  "extract_macros U t =
     (case (re_search U True (field_pattern ''Protein'' False) t,
            re_search U True (field_pattern ''Carb'' True) t,
            re_search U True (field_pattern ''Fat'' True) t) of
        (Some gp, Some gc, Some gf) \<Rightarrow>
          (case int_of_digits U (group1 gp) of
             Inl e \<Rightarrow> Inl e
           | Inr vp \<Rightarrow>
              (case int_of_digits U (group1 gc) of
                 Inl e \<Rightarrow> Inl e
               | Inr vc \<Rightarrow>
                  (case int_of_digits U (group1 gf) of
                     Inl e \<Rightarrow> Inl e
                   | Inr vf \<Rightarrow> Inr (Some vp, Some vc, Some vf))))
      | _ \<Rightarrow> Inr (None, None, None))"
  unfolding extract_macros_def Let_def macro_patterns ..

lemma extract_macros_ascii:
  assumes f: "unicode_facts U" and g: "unicode_facts V" and t: "ascii_text t"
  shows "extract_macros U t = extract_macros V t"
proof -
  have s: "re_search U True protein_pattern t = re_search V True protein_pattern t"
    "re_search U True carb_pattern t = re_search V True carb_pattern t"
    "re_search U True fat_pattern t = re_search V True fat_pattern t"
    by (rule re_search_ascii [OF f g _ t], rule ascii_macro_patterns)+
  have i: "int_of_digits U (group1 gs) = int_of_digits V (group1 gs)"
    if "re_search V True p t = Some gs" for p gs
    by (rule int_of_digits_ascii [OF f g group1_ascii [OF that t]])
  show ?thesis
  proof (cases "re_search V True protein_pattern t")
    case None
    then show ?thesis by (simp add: extract_macros_def s)
  next
    case p: (Some gp)
    show ?thesis
    proof (cases "re_search V True carb_pattern t")
      case None
      with p show ?thesis by (simp add: extract_macros_def s)
    next
      case c: (Some gc)
      show ?thesis
      proof (cases "re_search V True fat_pattern t")
        case None
        with p c show ?thesis by (simp add: extract_macros_def s)
      next
        case q: (Some gf)
        show ?thesis
          unfolding extract_macros_def Let_def s p c q
          by (simp add: i [OF p] i [OF c] i [OF q] split: sum.splits)
      qed
    qed
  qed
qed

lemma labeled_fieldI:
  "ci_eq U lab label \<Longrightarrow> list_all (is_word U) sfx \<Longrightarrow> ok \<or> sfx = [] \<Longrightarrow> sep \<noteq> [] \<Longrightarrow>
   list_all (is_sep U) sep \<Longrightarrow> ds \<noteq> [] \<Longrightarrow> list_all (is_digit U) ds \<Longrightarrow>
   rest = [] \<or> \<not> is_digit U (hd rest) \<Longrightarrow>
   labeled_field U label ok (lab @ sfx @ sep @ ds @ rest) ds"
  unfolding labeled_field_def by blast

text \<open>
  Claim C1, as it is stated, fails on the code: in the text \<open>Protein: \<close>, 4301 digits,
  \<open> Carbs: 20 Fat: 10\<close> the three fields occur, and \<open>extract_macros\<close> returns no triple:
  \<open>int\<close> raises \<open>ValueError\<close> on the digits of the protein field.
\<close>

theorem extract_macros_digit_limit:
  "field_occurs sample_unicode ''Protein'' False
     (code_points (''Protein: '' @ replicate 4301 CHR ''1'' @ '' Carbs: 20 Fat: 10'')) \<and>
   field_occurs sample_unicode ''Carb'' True
     (code_points (''Protein: '' @ replicate 4301 CHR ''1'' @ '' Carbs: 20 Fat: 10'')) \<and>
   field_occurs sample_unicode ''Fat'' True
     (code_points (''Protein: '' @ replicate 4301 CHR ''1'' @ '' Carbs: 20 Fat: 10'')) \<and>
   extract_macros sample_unicode
     (code_points (''Protein: '' @ replicate 4301 CHR ''1'' @ '' Carbs: 20 Fat: 10''))
     = Inl ValueError"
proof -
  note f = sample_facts
  let ?D = "replicate 4301 (0x31 :: nat)"
  let ?A = "map of_char ''Protein'' :: nat list"
  let ?B = "code_points '' Carbs: 20 Fat: 10''"
  let ?T = "code_points (''Protein: '' @ replicate 4301 CHR ''1'' @ '' Carbs: 20 Fat: 10'')"
  have a: "map of_char ''Protein: '' = ?A @ [] @ [0x3A, 0x20 :: nat]" by code_simp
  have "?T = map of_char ''Protein: '' @ code_points (replicate 4301 CHR ''1'' @ '' Carbs: 20 Fat: 10'')"
    by (rule code_points_append_ascii) simp
  then have t1: "?T = ?A @ [] @ [0x3A, 0x20] @ ?D @ ?B"
    by (simp only: code_points_replicate a append_assoc)
  have b2: "?B = [0x20] @ code_points ''Carbs: 20 Fat: 10''" by code_simp
  have b3: "?B = code_points '' Carbs: 20 '' @ code_points ''Fat: 10''" by code_simp
  have t2: "?T = (?A @ [] @ [0x3A, 0x20] @ ?D @ [0x20]) @ code_points ''Carbs: 20 Fat: 10''"
    unfolding t1 by (simp only: b2 append_assoc)
  have t3: "?T = (?A @ [] @ [0x3A, 0x20] @ ?D @ code_points '' Carbs: 20 '') @ code_points ''Fat: 10''"
    unfolding t1 by (simp only: b3 append_assoc)
  have k: "ci_eq sample_unicode ?A ''Protein''"
    by (rule ci_eq_self [OF f]) code_simp
  have hb: "?B = [] \<or> \<not> is_digit sample_unicode (hd ?B)" by (simp add: sample_simps)
  have lp: "labeled_field sample_unicode ''Protein'' False (?A @ [] @ [0x3A, 0x20] @ ?D @ ?B) ?D"
  proof (rule labeled_fieldI [OF k _ _ _ _ _ _ hb])
    show "list_all (is_word sample_unicode) []" by simp
    show "False \<or> ([] :: nat list) = []" by simp
    show "[0x3A, 0x20 :: nat] \<noteq> []" by simp
    show "list_all (is_sep sample_unicode) [0x3A, 0x20]"
      by (simp add: sample_simps)
    show "?D \<noteq> []" by simp
    show "list_all (is_digit sample_unicode) ?D" by (simp add: list_all_iff sample_digit_1)
  qed
  have m: "field_match_at sample_unicode ''Protein'' False ?T 0 ?D"
    unfolding field_match_at_def t1 using lp by simp
  then have o1: "field_occurs sample_unicode ''Protein'' False ?T"
    unfolding field_occurs_def by blast
  have "first_field sample_unicode ''Protein'' False ?T ?D"
    unfolding first_field_def using m by (intro exI [where x = 0]) simp
  from first_field_search [OF f this]
  have s1: "re_search sample_unicode True (field_pattern ''Protein'' False) ?T = Some [?D]" .
  have "field_at sample_unicode ''Carb'' True (code_points ''Carbs: 20 Fat: 10'') = Some [0x32, 0x30]"
    by (simp add: sample_simps)
  from field_occurs_suffix [OF field_at_labeled [OF this]]
  have o2: "field_occurs sample_unicode ''Carb'' True ?T" unfolding t2 .
  have "field_at sample_unicode ''Fat'' True (code_points ''Fat: 10'') = Some [0x31, 0x30]"
    by (simp add: sample_simps)
  from field_occurs_suffix [OF field_at_labeled [OF this]]
  have o3: "field_occurs sample_unicode ''Fat'' True ?T" unfolding t3 .
  from o2 search_cases [OF f, of "''Carb''" True ?T] obtain d2 where
    s2: "re_search sample_unicode True (field_pattern ''Carb'' True) ?T = Some [d2]"
    by (elim disjE conjE exE) simp_all
  from o3 search_cases [OF f, of "''Fat''" True ?T] obtain d3 where
    s3: "re_search sample_unicode True (field_pattern ''Fat'' True) ?T = Some [d3]"
    by (elim disjE conjE exE) simp_all
  have e: "extract_macros sample_unicode ?T = Inl ValueError"
    unfolding extract_macros_unfold s1 s2 s3
    by (simp add: group1_def int_of_digits_def int_max_str_digits_def)
  from o1 o2 o3 e show ?thesis by (intro conjI)
qed

text \<open>
  Claim C1, amended. For every text, \<open>extract_macros\<close> returns the triple of three
  \<open>None\<close> exactly when one of the \<open>Protein\<close> field, the \<open>Carb...\<close> field and the
  \<open>Fat...\<close> field does not occur in the text (in any case and in any order). When the
  three occur, the digits of the first occurrence of each are parsed: the result is the
  triple of the three integers when each run has at most 4300 digits, and \<open>int\<close>
  raises \<open>ValueError\<close> otherwise. So a triple with three values is returned exactly when
  the three fields occur with first runs of at most 4300 digits, and a returned triple
  never has only one or two values. The text with only \<open>Protein\<close> and \<open>Carbs\<close> gives
  three \<open>None\<close>; the three fields in another order and in mixed case give the three
  values.
\<close>

theorem extract_macros_all_or_nothing:
  "unicode_facts U \<Longrightarrow>
   (extract_macros U t = Inr (None, None, None) \<longleftrightarrow>
      \<not> (field_occurs U ''Protein'' False t \<and> field_occurs U ''Carb'' True t \<and>
         field_occurs U ''Fat'' True t)) \<and>
   (first_field U ''Protein'' False t dp \<and> first_field U ''Carb'' True t dc \<and>
    first_field U ''Fat'' True t df
      \<longrightarrow> extract_macros U t
            = (if length dp \<le> int_max_str_digits \<and> length dc \<le> int_max_str_digits \<and>
                  length df \<le> int_max_str_digits
               then Inr (Some (digits_value U dp), Some (digits_value U dc),
                         Some (digits_value U df))
               else Inl ValueError)) \<and>
   ((\<exists>p c f. extract_macros U t = Inr (Some p, Some c, Some f)) \<longleftrightarrow>
      (\<exists>dp dc df. first_field U ''Protein'' False t dp \<and> first_field U ''Carb'' True t dc \<and>
         first_field U ''Fat'' True t df \<and> length dp \<le> int_max_str_digits \<and>
         length dc \<le> int_max_str_digits \<and> length df \<le> int_max_str_digits)) \<and>
   (\<forall>x. extract_macros U t = Inr x \<longrightarrow>
      x = (None, None, None) \<or> (\<exists>p c f. x = (Some p, Some c, Some f))) \<and>
   extract_macros U (code_points ''Protein: 30 Carbs: 20'') = Inr (None, None, None) \<and>
   extract_macros U (code_points ''FAT: 10, carbs 20; protein:30'')
     = Inr (Some 30, Some 20, Some 10)"
proof -
  assume f: "unicode_facts U"
  note g = macros_generic [OF f extract_macros_unfold, of t dp dc df]
  have a1: "ascii_text (code_points ''Protein: 30 Carbs: 20'')"
    by (simp add: ascii_text_def sample_simps)
  have e1: "extract_macros sample_unicode (code_points ''Protein: 30 Carbs: 20'')
      = Inr (None, None, None)"
    by (simp add: extract_macros_unfold field_eval sample_simps del: re_search.simps)
  have c5: "extract_macros U (code_points ''Protein: 30 Carbs: 20'') = Inr (None, None, None)"
    using extract_macros_ascii [OF f sample_facts a1] e1 by simp
  have a2: "ascii_text (code_points ''FAT: 10, carbs 20; protein:30'')"
    by (simp add: ascii_text_def sample_simps)
  have e2: "extract_macros sample_unicode (code_points ''FAT: 10, carbs 20; protein:30'')
      = Inr (Some 30, Some 20, Some 10)"
    by (simp add: extract_macros_unfold field_eval sample_simps del: re_search.simps)
  have c6: "extract_macros U (code_points ''FAT: 10, carbs 20; protein:30'')
      = Inr (Some 30, Some 20, Some 10)"
    using extract_macros_ascii [OF f sample_facts a2] e2 by simp
  from conjunct1 [OF g] conjunct1 [OF conjunct2 [OF g]]
    conjunct1 [OF conjunct2 [OF conjunct2 [OF g]]] conjunct2 [OF conjunct2 [OF conjunct2 [OF g]]]
    c5 c6
  show ?thesis by (intro conjI)
qed

text \<open>
  The text \<open>Prote<U+0130>n:<U+00A0><U+0663><U+0660> Carbohydrat<U+00E9>s: 20,
  <U+017F> fat<U+017F><U+2003><U+0967><U+0966>\<close>: a dotted capital I in the label, a
  no-break space and an em space as separators, Arabic-Indic and Devanagari digits, and
  label suffixes with letters beyond ASCII. The first occurrences carry the digits of
  30, 20 and 10. The text of the specification's example has no \<open>Fat\<close> field.
\<close>

theorem extract_macros_all_or_nothing_witness:
  "unicode_facts sample_unicode \<and>
   first_field sample_unicode ''Protein'' False
     (code_points (''Prote'' @ [CHR 0xC4, CHR 0xB0] @ ''n:'' @ [CHR 0xC2, CHR 0xA0] @
        [CHR 0xD9, CHR 0xA3, CHR 0xD9, CHR 0xA0] @ '' Carbohydrat'' @ [CHR 0xC3, CHR 0xA9] @
        ''s: 20, '' @ [CHR 0xC5, CHR 0xBF] @ '' fat'' @ [CHR 0xC5, CHR 0xBF] @
        [CHR 0xE2, CHR 0x80, CHR 0x83] @ [CHR 0xE0, CHR 0xA5, CHR 0xA7, CHR 0xE0, CHR 0xA5, CHR 0xA6]))
     [0x663, 0x660] \<and>
   first_field sample_unicode ''Carb'' True
     (code_points (''Prote'' @ [CHR 0xC4, CHR 0xB0] @ ''n:'' @ [CHR 0xC2, CHR 0xA0] @
        [CHR 0xD9, CHR 0xA3, CHR 0xD9, CHR 0xA0] @ '' Carbohydrat'' @ [CHR 0xC3, CHR 0xA9] @
        ''s: 20, '' @ [CHR 0xC5, CHR 0xBF] @ '' fat'' @ [CHR 0xC5, CHR 0xBF] @
        [CHR 0xE2, CHR 0x80, CHR 0x83] @ [CHR 0xE0, CHR 0xA5, CHR 0xA7, CHR 0xE0, CHR 0xA5, CHR 0xA6]))
     [0x32, 0x30] \<and>
   first_field sample_unicode ''Fat'' True
     (code_points (''Prote'' @ [CHR 0xC4, CHR 0xB0] @ ''n:'' @ [CHR 0xC2, CHR 0xA0] @
        [CHR 0xD9, CHR 0xA3, CHR 0xD9, CHR 0xA0] @ '' Carbohydrat'' @ [CHR 0xC3, CHR 0xA9] @
        ''s: 20, '' @ [CHR 0xC5, CHR 0xBF] @ '' fat'' @ [CHR 0xC5, CHR 0xBF] @
        [CHR 0xE2, CHR 0x80, CHR 0x83] @ [CHR 0xE0, CHR 0xA5, CHR 0xA7, CHR 0xE0, CHR 0xA5, CHR 0xA6]))
     [0x967, 0x966] \<and>
   extract_macros sample_unicode
     (code_points (''Prote'' @ [CHR 0xC4, CHR 0xB0] @ ''n:'' @ [CHR 0xC2, CHR 0xA0] @
        [CHR 0xD9, CHR 0xA3, CHR 0xD9, CHR 0xA0] @ '' Carbohydrat'' @ [CHR 0xC3, CHR 0xA9] @
        ''s: 20, '' @ [CHR 0xC5, CHR 0xBF] @ '' fat'' @ [CHR 0xC5, CHR 0xBF] @
        [CHR 0xE2, CHR 0x80, CHR 0x83] @ [CHR 0xE0, CHR 0xA5, CHR 0xA7, CHR 0xE0, CHR 0xA5, CHR 0xA6]))
     = Inr (Some 30, Some 20, Some 10) \<and>
   extract_macros sample_unicode (code_points ''Protein: 30 Carbs: 20'') = Inr (None, None, None) \<and>
   \<not> field_occurs sample_unicode ''Fat'' True (code_points ''Protein: 30 Carbs: 20'')"
proof -
  note f = sample_facts
  let ?t = "code_points (''Prote'' @ [CHR 0xC4, CHR 0xB0] @ ''n:'' @ [CHR 0xC2, CHR 0xA0] @
        [CHR 0xD9, CHR 0xA3, CHR 0xD9, CHR 0xA0] @ '' Carbohydrat'' @ [CHR 0xC3, CHR 0xA9] @
        ''s: 20, '' @ [CHR 0xC5, CHR 0xBF] @ '' fat'' @ [CHR 0xC5, CHR 0xBF] @
        [CHR 0xE2, CHR 0x80, CHR 0x83] @ [CHR 0xE0, CHR 0xA5, CHR 0xA7, CHR 0xE0, CHR 0xA5, CHR 0xA6])"
  let ?u = "code_points ''Protein: 30 Carbs: 20''"
  have "re_search sample_unicode True (field_pattern ''Protein'' False) ?t = Some [[0x663, 0x660]]"
    by (simp add: field_eval sample_simps del: re_search.simps)
  then have p: "first_field sample_unicode ''Protein'' False ?t [0x663, 0x660]"
    unfolding search_first_field [OF f] by simp
  have "re_search sample_unicode True (field_pattern ''Carb'' True) ?t = Some [[0x32, 0x30]]"
    by (simp add: field_eval sample_simps del: re_search.simps)
  then have c: "first_field sample_unicode ''Carb'' True ?t [0x32, 0x30]"
    unfolding search_first_field [OF f] by simp
  have "re_search sample_unicode True (field_pattern ''Fat'' True) ?t = Some [[0x967, 0x966]]"
    by (simp add: field_eval sample_simps del: re_search.simps)
  then have a: "first_field sample_unicode ''Fat'' True ?t [0x967, 0x966]"
    unfolding search_first_field [OF f] by simp
  note th = extract_macros_all_or_nothing [OF f]
  have v: "(if length [0x663, 0x660 :: nat] \<le> int_max_str_digits \<and>
               length [0x32, 0x30 :: nat] \<le> int_max_str_digits \<and>
               length [0x967, 0x966 :: nat] \<le> int_max_str_digits
            then Inr (Some (digits_value sample_unicode [0x663, 0x660]),
                      Some (digits_value sample_unicode [0x32, 0x30]),
                      Some (digits_value sample_unicode [0x967, 0x966]))
            else Inl ValueError)
      = (Inr (Some 30, Some 20, Some 10) :: py_error + (nat option \<times> nat option \<times> nat option))"
    by (simp add: sample_simps)
  from mp [OF conjunct1 [OF conjunct2 [OF th, of ?t "[0x663, 0x660]" "[0x32, 0x30]" "[0x967, 0x966]"]]
      conjI [OF p conjI [OF c a]]] v
  have e: "extract_macros sample_unicode ?t = Inr (Some 30, Some 20, Some 10)" by simp
  have n: "extract_macros sample_unicode ?u = Inr (None, None, None)"
    by (simp add: extract_macros_unfold field_eval sample_simps del: re_search.simps)
  with conjunct1 [OF th, of ?u]
  have g: "\<not> (field_occurs sample_unicode ''Protein'' False ?u \<and>
      field_occurs sample_unicode ''Carb'' True ?u \<and> field_occurs sample_unicode ''Fat'' True ?u)"
    by simp
  have "re_search sample_unicode True (field_pattern ''Protein'' False) ?u \<noteq> None"
    by (simp add: field_eval sample_simps del: re_search.simps)
  then have po: "field_occurs sample_unicode ''Protein'' False ?u"
    unfolding search_none_field [OF f] by simp
  have "re_search sample_unicode True (field_pattern ''Carb'' True) ?u \<noteq> None"
    by (simp add: field_eval sample_simps del: re_search.simps)
  then have co: "field_occurs sample_unicode ''Carb'' True ?u"
    unfolding search_none_field [OF f] by simp
  from g po co have nf: "\<not> field_occurs sample_unicode ''Fat'' True ?u" by simp
  from f p c a e n nf show ?thesis by (intro conjI)
qed

section \<open>The pie chart\<close>



section \<open>The history table\<close>

lemma mset_insert_desc: "mset (insert_desc r xs) = add_mset r (mset xs)"
  by (induction xs) auto

lemma mset_order_by_date_desc: "mset (order_by_date_desc xs) = mset xs"
  by (induction xs) (auto simp: mset_insert_desc)

lemma set_insert_desc: "set (insert_desc r xs) = insert r (set xs)"
  by (induction xs) auto

lemma sorted_insert_desc:
  "sorted_wrt (\<lambda>a b. fst b \<le> fst a) xs \<Longrightarrow> sorted_wrt (\<lambda>a b. fst b \<le> fst a) (insert_desc r xs)"
proof (induction xs)
  case Nil
  then show ?case by simp
next
  case (Cons x xs)
  show ?case
  proof (cases "fst x \<le> fst r")
    case True
    have "\<forall>y \<in> set xs. fst y \<le> fst r"
    proof
      fix y assume "y \<in> set xs"
      with Cons.prems have "fst y \<le> fst x" by simp
      with True show "fst y \<le> fst r" by (rule order_trans [rotated])
    qed
    with True Cons.prems show ?thesis by simp
  next
    case False
    then have "fst r \<le> fst x" by simp
    with False Cons show ?thesis by (auto simp: set_insert_desc)
  qed
qed

lemma sorted_order_by_date_desc: "sorted_wrt (\<lambda>a b. fst b \<le> fst a) (order_by_date_desc xs)"
  by (induction xs) (auto intro: sorted_insert_desc)

lemma desc_pairs:
  fixes xs :: "(string \<times> string \<times> nat) list"
  assumes s: "sorted_wrt (\<lambda>a b. fst b \<le> fst a) xs"
    and i: "i < length xs" and j: "j < length xs" and lt: "fst (xs ! j) < fst (xs ! i)"
  shows "i < j"
proof (rule ccontr)
  assume "\<not> i < j"
  then consider "i = j" | "j < i" by linarith
  then show False
  proof cases
    case 1
    with lt show False by simp
  next
    case 2
    from sorted_wrt_nth_less [OF s 2 i] have "fst (xs ! i) \<le> fst (xs ! j)" .
    with lt show False by simp
  qed
qed

text \<open>
  Claim C4. For every table and every owner, the history query returns exactly the
  rows of that owner (their date, meal and calories, as many times as they are stored,
  and no row of another user), ordered by date descending: of two returned rows with
  dates T1 > T2 the row of T1 comes first. For an owner without rows the result is the
  empty list. Dates are compared as the stored strings, which is what
  \<open>ORDER BY date DESC\<close> does on a \<open>TEXT\<close> column.
\<close>

theorem history_query_owner_desc:
  "mset (history_query rows owner) =
     mset (map (\<lambda>r. (date r, meal r, calories r)) (filter (\<lambda>r. username r = owner) rows)) \<and>
   (\<forall>i j. i < length (history_query rows owner) \<and> j < length (history_query rows owner) \<and>
      fst (history_query rows owner ! j) < fst (history_query rows owner ! i) \<longrightarrow> i < j) \<and>
   ((\<forall>r \<in> set rows. username r \<noteq> owner) \<longrightarrow> history_query rows owner = [])"
proof (intro conjI allI impI)
  show "mset (history_query rows owner) =
     mset (map (\<lambda>r. (date r, meal r, calories r)) (filter (\<lambda>r. username r = owner) rows))"
    unfolding history_query_def by (rule mset_order_by_date_desc)
next
  fix i j
  assume a: "i < length (history_query rows owner) \<and> j < length (history_query rows owner) \<and>
      fst (history_query rows owner ! j) < fst (history_query rows owner ! i)"
  have s: "sorted_wrt (\<lambda>a b. fst b \<le> fst a) (history_query rows owner)"
    unfolding history_query_def by (rule sorted_order_by_date_desc)
  from a have a1: "i < length (history_query rows owner)"
    and a2: "j < length (history_query rows owner)"
    and a3: "fst (history_query rows owner ! j) < fst (history_query rows owner ! i)"
    by simp_all
  show "i < j" by (rule desc_pairs [OF s a1 a2 a3])
next
  assume "\<forall>r \<in> set rows. username r \<noteq> owner"
  then have "filter (\<lambda>r. username r = owner) rows = []" by (simp add: filter_empty_conv)
  then show "history_query rows owner = []" by (simp add: history_query_def)
qed

text \<open>
  A table of two users: the rows of \<open>asha\<close> come back with the later date string
  first, the row of \<open>ravi\<close> is not among them, and \<open>nobody\<close> has the empty history.
\<close>

theorem history_query_owner_desc_witness:
  "history_query
     [\<lparr>row_id = 1, username = ''asha'', date = ''05-03-2025 08:15'', meal = ''Idli'',
        calories = 150, details = ''Idli 150 kcal''\<rparr>,
      \<lparr>row_id = 2, username = ''ravi'', date = ''06-03-2025 13:00'', meal = ''Thali'',
        calories = 650, details = ''Thali 650 kcal''\<rparr>,
      \<lparr>row_id = 3, username = ''asha'', date = ''07-03-2025 20:30'', meal = ''Dosa'',
        calories = 300, details = ''Dosa 300 kcal''\<rparr>] ''asha''
     = [(''07-03-2025 20:30'', ''Dosa'', 300), (''05-03-2025 08:15'', ''Idli'', 150)] \<and>
   history_query
     [\<lparr>row_id = 1, username = ''asha'', date = ''05-03-2025 08:15'', meal = ''Idli'',
        calories = 150, details = ''Idli 150 kcal''\<rparr>,
      \<lparr>row_id = 2, username = ''ravi'', date = ''06-03-2025 13:00'', meal = ''Thali'',
        calories = 650, details = ''Thali 650 kcal''\<rparr>,
      \<lparr>row_id = 3, username = ''asha'', date = ''07-03-2025 20:30'', meal = ''Dosa'',
        calories = 300, details = ''Dosa 300 kcal''\<rparr>] ''nobody'' = []"
proof -
  let ?rows = "[\<lparr>row_id = 1, username = ''asha'', date = ''05-03-2025 08:15'', meal = ''Idli'',
        calories = 150, details = ''Idli 150 kcal''\<rparr>,
      \<lparr>row_id = 2, username = ''ravi'', date = ''06-03-2025 13:00'', meal = ''Thali'',
        calories = 650, details = ''Thali 650 kcal''\<rparr>,
      \<lparr>row_id = 3, username = ''asha'', date = ''07-03-2025 20:30'', meal = ''Dosa'',
        calories = 300, details = ''Dosa 300 kcal''\<rparr>]"
  have q: "history_query ?rows ''asha''
      = [(''07-03-2025 20:30'', ''Dosa'', 300), (''05-03-2025 08:15'', ''Idli'', 150)]"
    by (simp add: history_query_def)
  have h: "\<forall>r \<in> set ?rows. username r \<noteq> ''nobody''" by simp
  have imp: "(\<forall>r \<in> set ?rows. username r \<noteq> ''nobody'') \<longrightarrow> history_query ?rows ''nobody'' = []"
    by (rule conjunct2 [OF conjunct2 [OF history_query_owner_desc]])
  from mp [OF imp h] q show ?thesis by (intro conjI)
qed

lemma set_history_query:
  "set (history_query rows owner) =
     (\<lambda>r. (date r, meal r, calories r)) ` {r \<in> set rows. username r = owner}"
proof -
  have "set (history_query rows owner) = set_mset (mset (history_query rows owner))" by simp
  also have "\<dots> = set (map (\<lambda>r. (date r, meal r, calories r)) (filter (\<lambda>r. username r = owner) rows))"
    unfolding history_query_def mset_order_by_date_desc by simp
  finally show ?thesis by simp
qed

text \<open>
  Claim C5, as it is stated, fails on the code: the query selects the columns date,
  meal and calories, so its rows carry no raw text. Two analyses whose raw texts have
  the same first line and the same calories and differ in a later line store rows that
  differ in the raw text, and the query returns the same for both. An analysis whose
  calorie figure is above \<open>2^63 - 1\<close> stores nothing.
\<close>

theorem history_query_omits_details:
  "analyse_insert sample_unicode ''asha''
     \<lparr>year = 2025, month = 3, day = 5, hour = 8, minute = 15, second = 0, microsecond = 0\<rparr>
     (''Idli'' @ [nl] @ ''with sambar, 150 kcal'') []
     = Inr [\<lparr>row_id = 1, username = ''asha'', date = ''05-03-2025 08:15'', meal = ''Idli'',
             calories = 150, details = ''Idli'' @ [nl] @ ''with sambar, 150 kcal''\<rparr>] \<and>
   analyse_insert sample_unicode ''asha''
     \<lparr>year = 2025, month = 3, day = 5, hour = 8, minute = 15, second = 0, microsecond = 0\<rparr>
     (''Idli'' @ [nl] @ ''with chutney, 150 kcal'') []
     = Inr [\<lparr>row_id = 1, username = ''asha'', date = ''05-03-2025 08:15'', meal = ''Idli'',
             calories = 150, details = ''Idli'' @ [nl] @ ''with chutney, 150 kcal''\<rparr>] \<and>
   history_query [\<lparr>row_id = 1, username = ''asha'', date = ''05-03-2025 08:15'', meal = ''Idli'',
                    calories = 150, details = ''Idli'' @ [nl] @ ''with sambar, 150 kcal''\<rparr>] ''asha''
     = [(''05-03-2025 08:15'', ''Idli'', 150)] \<and>
   history_query [\<lparr>row_id = 1, username = ''asha'', date = ''05-03-2025 08:15'', meal = ''Idli'',
                    calories = 150, details = ''Idli'' @ [nl] @ ''with chutney, 150 kcal''\<rparr>] ''asha''
     = [(''05-03-2025 08:15'', ''Idli'', 150)] \<and>
   ''Idli'' @ [nl] @ ''with sambar, 150 kcal'' \<noteq> ''Idli'' @ [nl] @ ''with chutney, 150 kcal'' \<and>
   analyse_insert sample_unicode ''asha''
     \<lparr>year = 2025, month = 3, day = 5, hour = 8, minute = 15, second = 0, microsecond = 0\<rparr>
     ''Idli, 9223372036854775808 kcal'' []
     = Inl OverflowError"
proof -
  let ?now = "\<lparr>year = 2025, month = 3, day = 5, hour = 8, minute = 15, second = 0, microsecond = 0\<rparr>"
  let ?r1 = "''Idli'' @ [nl] @ ''with sambar, 150 kcal''"
  let ?r2 = "''Idli'' @ [nl] @ ''with chutney, 150 kcal''"
  let ?r3 = "''Idli, 9223372036854775808 kcal''"
  have s: "strftime_dmY_HM ?now = ''05-03-2025 08:15''" by code_simp
  have c1: "extract_calories sample_unicode (code_points ?r1) = Inr 150"
    by (simp add: kcal_eval sample_simps nl_def del: re_search.simps)
  have c2: "extract_calories sample_unicode (code_points ?r2) = Inr 150"
    by (simp add: kcal_eval sample_simps nl_def del: re_search.simps)
  have c3: "extract_calories sample_unicode (code_points ?r3) = Inr 9223372036854775808"
    by (simp add: kcal_eval sample_simps del: re_search.simps)
  have f1: "first_line ?r1 = ''Idli''" by code_simp
  have f2: "first_line ?r2 = ''Idli''" by code_simp
  have i1: "analyse_insert sample_unicode ''asha'' ?now ?r1 []
      = Inr [\<lparr>row_id = 1, username = ''asha'', date = ''05-03-2025 08:15'', meal = ''Idli'',
              calories = 150, details = ?r1\<rparr>]"
    unfolding analyse_insert_def s c1 f1 by (simp add: history_insert_def next_id_def)
  have i2: "analyse_insert sample_unicode ''asha'' ?now ?r2 []
      = Inr [\<lparr>row_id = 1, username = ''asha'', date = ''05-03-2025 08:15'', meal = ''Idli'',
              calories = 150, details = ?r2\<rparr>]"
    unfolding analyse_insert_def s c2 f2 by (simp add: history_insert_def next_id_def)
  have i3: "analyse_insert sample_unicode ''asha'' ?now ?r3 [] = Inl OverflowError"
    unfolding analyse_insert_def c3 by (simp add: history_insert_def)
  have q1: "history_query [\<lparr>row_id = 1, username = ''asha'', date = ''05-03-2025 08:15'',
        meal = ''Idli'', calories = 150, details = ?r1\<rparr>] ''asha''
      = [(''05-03-2025 08:15'', ''Idli'', 150)]"
    by (simp add: history_query_def)
  have q2: "history_query [\<lparr>row_id = 1, username = ''asha'', date = ''05-03-2025 08:15'',
        meal = ''Idli'', calories = 150, details = ?r2\<rparr>] ''asha''
      = [(''05-03-2025 08:15'', ''Idli'', 150)]"
    by (simp add: history_query_def)
  have d: "?r1 \<noteq> ?r2" by simp
  from i1 i2 q1 q2 d i3 show ?thesis by (intro conjI)
qed

text \<open>
  Claim C5, amended. For every row whose calories fit SQLite's signed 64-bit integer
  and every table, the insert succeeds, the query of the row's owner then contains a
  row equal to it in date, meal and calories, and the table holds a row equal to it in
  all of owner, date, meal, calories and raw text (the raw text is stored, and the
  query does not return it).
\<close>

theorem history_insert_query_roundtrip:
  "c \<le> 9223372036854775807 \<longrightarrow>
     (\<exists>rows'. history_insert u d m c det rows = Inr rows' \<and>
        (d, m, c) \<in> set (history_query rows' u) \<and>
        (\<exists>r \<in> set rows'. username r = u \<and> date r = d \<and> meal r = m \<and> calories r = c \<and>
           details r = det))"
proof
  assume c: "c \<le> 9223372036854775807"
  let ?new = "\<lparr>row_id = next_id rows, username = u, date = d, meal = m, calories = c, details = det\<rparr>"
  have i: "history_insert u d m c det rows = Inr (rows @ [?new])"
    using c by (simp add: history_insert_def)
  have q: "(d, m, c) \<in> set (history_query (rows @ [?new]) u)"
    unfolding set_history_query by (rule image_eqI [where x = ?new]) simp_all
  have r: "\<exists>r \<in> set (rows @ [?new]). username r = u \<and> date r = d \<and> meal r = m \<and> calories r = c \<and>
           details r = det"
    by (rule bexI [where x = ?new]) simp_all
  from i q r show "\<exists>rows'. history_insert u d m c det rows = Inr rows' \<and>
        (d, m, c) \<in> set (history_query rows' u) \<and>
        (\<exists>r \<in> set rows'. username r = u \<and> date r = d \<and> meal r = m \<and> calories r = c \<and>
           details r = det)"
    by (intro exI [where x = "rows @ [?new]"] conjI)
qed

theorem history_insert_query_roundtrip_witness:
  "(350::nat) \<le> 9223372036854775807 \<and>
   (\<exists>rows'. history_insert ''ravi'' ''06-03-2025 13:00'' ''Thali'' 350 ''Thali, 350 kcal''
        [\<lparr>row_id = 1, username = ''asha'', date = ''05-03-2025 08:15'', meal = ''Idli'',
           calories = 150, details = ''Idli 150 kcal''\<rparr>] = Inr rows' \<and>
      (''06-03-2025 13:00'', ''Thali'', 350) \<in> set (history_query rows' ''ravi'') \<and>
      (\<exists>r \<in> set rows'. username r = ''ravi'' \<and> date r = ''06-03-2025 13:00'' \<and> meal r = ''Thali'' \<and>
         calories r = 350 \<and> details r = ''Thali, 350 kcal''))"
proof -
  have h: "(350::nat) \<le> 9223372036854775807" by simp
  from mp [OF history_insert_query_roundtrip h] h show ?thesis by (intro conjI)
qed

section \<open>The date format under string comparison\<close>

text \<open>
  Claim C3 says that the stored date format sorts in the order of time. The code stores
  \<open>%d-%m-%Y %H:%M\<close>, day first, and orders the history by that string: 2 January 2025
  is earlier than 1 February 2025, yet its string is the greater one, so after the two
  analyses the history lists the entry of January above the entry of February.
\<close>

theorem strftime_order_defect:
  "unicode_facts U \<Longrightarrow>
   earlier \<lparr>year = 2025, month = 1, day = 2, hour = 10, minute = 0, second = 0, microsecond = 0\<rparr>
           \<lparr>year = 2025, month = 2, day = 1, hour = 10, minute = 0, second = 0, microsecond = 0\<rparr> \<and>
   strftime_dmY_HM \<lparr>year = 2025, month = 1, day = 2, hour = 10, minute = 0, second = 0, microsecond = 0\<rparr>
     = ''02-01-2025 10:00'' \<and>
   strftime_dmY_HM \<lparr>year = 2025, month = 2, day = 1, hour = 10, minute = 0, second = 0, microsecond = 0\<rparr>
     = ''01-02-2025 10:00'' \<and>
   strftime_dmY_HM \<lparr>year = 2025, month = 2, day = 1, hour = 10, minute = 0, second = 0, microsecond = 0\<rparr>
     < strftime_dmY_HM \<lparr>year = 2025, month = 1, day = 2, hour = 10, minute = 0, second = 0, microsecond = 0\<rparr> \<and>
   (case analyse_insert U ''asha''
           \<lparr>year = 2025, month = 1, day = 2, hour = 10, minute = 0, second = 0, microsecond = 0\<rparr>
           ''Idli 150 kcal'' [] of
      Inl e \<Rightarrow> []
    | Inr rows1 \<Rightarrow>
       (case analyse_insert U ''asha''
               \<lparr>year = 2025, month = 2, day = 1, hour = 10, minute = 0, second = 0, microsecond = 0\<rparr>
               ''Dosa 300 kcal'' rows1 of
          Inl e \<Rightarrow> []
        | Inr rows2 \<Rightarrow> history_query rows2 ''asha''))
     = [(''02-01-2025 10:00'', ''Idli 150 kcal'', 150), (''01-02-2025 10:00'', ''Dosa 300 kcal'', 300)]"
proof -
  assume f: "unicode_facts U"
  let ?jan = "\<lparr>year = 2025, month = 1, day = 2, hour = 10, minute = 0, second = 0, microsecond = 0\<rparr>"
  let ?feb = "\<lparr>year = 2025, month = 2, day = 1, hour = 10, minute = 0, second = 0, microsecond = 0\<rparr>"
  let ?row1 = "\<lparr>row_id = 1, username = ''asha'', date = ''02-01-2025 10:00'',
      meal = ''Idli 150 kcal'', calories = 150, details = ''Idli 150 kcal''\<rparr>"
  let ?row2 = "\<lparr>row_id = 2, username = ''asha'', date = ''01-02-2025 10:00'',
      meal = ''Dosa 300 kcal'', calories = 300, details = ''Dosa 300 kcal''\<rparr>"
  have e: "earlier ?jan ?feb" by (simp add: earlier_def datetime_key_def)
  have sj: "strftime_dmY_HM ?jan = ''02-01-2025 10:00''" by code_simp
  have sf: "strftime_dmY_HM ?feb = ''01-02-2025 10:00''" by code_simp
  have lt: "''01-02-2025 10:00'' < ''02-01-2025 10:00''" by simp
  have a1: "ascii_text (code_points ''Idli 150 kcal'')" by (simp add: ascii_text_def sample_simps)
  have e1: "extract_calories sample_unicode (code_points ''Idli 150 kcal'') = Inr 150"
    by (simp add: kcal_eval sample_simps del: re_search.simps)
  have c1: "extract_calories U (code_points ''Idli 150 kcal'') = Inr 150"
    using extract_calories_ascii [OF f sample_facts a1] e1 by simp
  have a2: "ascii_text (code_points ''Dosa 300 kcal'')" by (simp add: ascii_text_def sample_simps)
  have e2: "extract_calories sample_unicode (code_points ''Dosa 300 kcal'') = Inr 300"
    by (simp add: kcal_eval sample_simps del: re_search.simps)
  have c2: "extract_calories U (code_points ''Dosa 300 kcal'') = Inr 300"
    using extract_calories_ascii [OF f sample_facts a2] e2 by simp
  have f1: "first_line ''Idli 150 kcal'' = ''Idli 150 kcal''" by code_simp
  have f2: "first_line ''Dosa 300 kcal'' = ''Dosa 300 kcal''" by code_simp
  have i1: "analyse_insert U ''asha'' ?jan ''Idli 150 kcal'' [] = Inr [?row1]"
    unfolding analyse_insert_def sj c1 f1 by (simp add: history_insert_def next_id_def)
  have i2: "analyse_insert U ''asha'' ?feb ''Dosa 300 kcal'' [?row1] = Inr [?row1, ?row2]"
    unfolding analyse_insert_def sf c2 f2 by (simp add: history_insert_def next_id_def)
  have q: "history_query [?row1, ?row2] ''asha''
      = [(''02-01-2025 10:00'', ''Idli 150 kcal'', 150), (''01-02-2025 10:00'', ''Dosa 300 kcal'', 300)]"
    by (simp add: history_query_def)
  have p4: "strftime_dmY_HM ?feb < strftime_dmY_HM ?jan" unfolding sj sf by (rule lt)
  have p5: "(case analyse_insert U ''asha'' ?jan ''Idli 150 kcal'' [] of
      Inl e \<Rightarrow> []
    | Inr rows1 \<Rightarrow>
       (case analyse_insert U ''asha'' ?feb ''Dosa 300 kcal'' rows1 of
          Inl e \<Rightarrow> []
        | Inr rows2 \<Rightarrow> history_query rows2 ''asha''))
     = [(''02-01-2025 10:00'', ''Idli 150 kcal'', 150), (''01-02-2025 10:00'', ''Dosa 300 kcal'', 300)]"
    unfolding i1 sum.case i2 q by (rule refl)
  from e sj sf p4 p5 show ?thesis by (intro conjI)
qed

text \<open>The two analyses on the sample tables.\<close>

theorem strftime_order_defect_witness:
  "unicode_facts sample_unicode \<and>
   strftime_dmY_HM \<lparr>year = 2025, month = 2, day = 1, hour = 10, minute = 0, second = 0, microsecond = 0\<rparr>
     < strftime_dmY_HM \<lparr>year = 2025, month = 1, day = 2, hour = 10, minute = 0, second = 0, microsecond = 0\<rparr> \<and>
   (case analyse_insert sample_unicode ''asha''
           \<lparr>year = 2025, month = 1, day = 2, hour = 10, minute = 0, second = 0, microsecond = 0\<rparr>
           ''Idli 150 kcal'' [] of
      Inl e \<Rightarrow> []
    | Inr rows1 \<Rightarrow>
       (case analyse_insert sample_unicode ''asha''
               \<lparr>year = 2025, month = 2, day = 1, hour = 10, minute = 0, second = 0, microsecond = 0\<rparr>
               ''Dosa 300 kcal'' rows1 of
          Inl e \<Rightarrow> []
        | Inr rows2 \<Rightarrow> history_query rows2 ''asha''))
     = [(''02-01-2025 10:00'', ''Idli 150 kcal'', 150), (''01-02-2025 10:00'', ''Dosa 300 kcal'', 300)]"
proof -
  note th = strftime_order_defect [OF sample_facts]
  from sample_facts conjunct1 [OF conjunct2 [OF conjunct2 [OF conjunct2 [OF th]]]]
    conjunct2 [OF conjunct2 [OF conjunct2 [OF conjunct2 [OF th]]]]
  show ?thesis by (intro conjI)
qed

section \<open>The report\<close>

declare str_replace.simps [simp del]

lemma str_replace_Nil [simp]: "str_replace old new [] = (if old = [] then new else [])"
  by (subst str_replace.simps) simp

lemma str_replace_Cons:
  "old \<noteq> [] \<Longrightarrow> str_replace old new (c # cs) =
     (if take (length old) (c # cs) = old then new @ str_replace old new (drop (length old) (c # cs))
      else c # str_replace old new cs)"
  by (subst str_replace.simps) simp

lemma str_replace_single:
  "str_replace [a] new s = concat (map (\<lambda>x. if x = a then new else [x]) s)"
  by (induction s) (simp_all add: str_replace_Cons)

lemma filter_str_replace_double:
  "filter (\<lambda>c. c \<noteq> a) (str_replace [a, a] [] s) = filter (\<lambda>c. c \<noteq> a) s"
proof (induction s rule: length_induct)
  case (1 s)
  show ?case
  proof (cases s)
    case Nil
    then show ?thesis by simp
  next
    case (Cons c cs)
    show ?thesis
    proof (cases "take 2 (c # cs) = [a, a]")
      case True
      then obtain r where cs: "cs = a # r" and c: "c = a" by (cases cs) auto
      have "length r < length s" using Cons cs by simp
      with 1 have "filter (\<lambda>c. c \<noteq> a) (str_replace [a, a] [] r) = filter (\<lambda>c. c \<noteq> a) r" by blast
      then show ?thesis unfolding Cons cs c by (simp add: str_replace_Cons)
    next
      case False
      have "length cs < length s" using Cons by simp
      with 1 have "filter (\<lambda>c. c \<noteq> a) (str_replace [a, a] [] cs) = filter (\<lambda>c. c \<noteq> a) cs" by blast
      with False show ?thesis unfolding Cons by (simp add: str_replace_Cons)
    qed
  qed
qed

lemma strip_markers: "str_replace [a] [] (str_replace [a, a] [] s) = filter (\<lambda>c. c \<noteq> a) s"
proof -
  have "str_replace [a] [] u = filter (\<lambda>c. c \<noteq> a) u" for u
    unfolding str_replace_single by (induction u) simp_all
  then show ?thesis by (simp add: filter_str_replace_double)
qed

lemma html_escape_Cons: "html_escape (c # cs) = escape_chr c @ html_escape cs"
  unfolding html_escape_def str_replace_single escape_chr_def by simp

lemma html_escape_chars: "html_escape s = concat (map escape_chr s)"
  by (induction s) (simp_all add: html_escape_Cons, simp add: html_escape_def)

lemma filter_escape_chr:
  "filter (\<lambda>c. c \<noteq> CHR ''*'') (escape_chr x) = (if x = CHR ''*'' then [] else escape_chr x)"
  unfolding escape_chr_def by simp

lemma clean_text_chars:
  "clean_text t = concat (map escape_chr (filter (\<lambda>c. c \<noteq> CHR ''*'') t))"
proof -
  have "filter (\<lambda>c. c \<noteq> CHR ''*'') (concat (map escape_chr u))
      = concat (map escape_chr (filter (\<lambda>c. c \<noteq> CHR ''*'') u))" for u
    by (induction u) (simp_all add: filter_escape_chr)
  then show ?thesis
    unfolding clean_text_def strip_markers html_escape_chars by simp
qed

lemma escape_chr_clean: "x \<noteq> CHR ''*'' \<Longrightarrow> list_all (\<lambda>c. \<not> markup_or_marker c) (escape_chr x)"
  unfolding escape_chr_def markup_or_marker_def by simp

lemma clean_text_no_markup: "list_all (\<lambda>c. \<not> markup_or_marker c) (clean_text t)"
  unfolding clean_text_chars
  by (induction t) (simp_all add: escape_chr_clean)

lemma str_strip_blank: "str_strip U s \<noteq> [] \<longleftrightarrow> \<not> list_all (is_space U) s"
proof -
  have "dropWhile (is_space U) (rev (dropWhile (is_space U) s)) = [] \<longleftrightarrow> dropWhile (is_space U) s = []"
  proof
    assume a: "dropWhile (is_space U) (rev (dropWhile (is_space U) s)) = []"
    show "dropWhile (is_space U) s = []"
    proof (rule ccontr)
      assume n: "dropWhile (is_space U) s \<noteq> []"
      then have "hd (dropWhile (is_space U) s) \<in> set (rev (dropWhile (is_space U) s))" by simp
      with a have "is_space U (hd (dropWhile (is_space U) s))"
        unfolding dropWhile_eq_Nil_conv by blast
      with hd_dropWhile [OF n] show False by simp
    qed
  next
    assume e: "dropWhile (is_space U) s = []"
    show "dropWhile (is_space U) (rev (dropWhile (is_space U) s)) = []" unfolding e by simp
  qed
  then show ?thesis
    unfolding str_strip_def rev_is_Nil_conv list_all_iff
    by (simp only: dropWhile_eq_Nil_conv)
qed

lemma add_lines_eq:
  "add_lines U ls story =
     story @ concat (map (\<lambda>l. [Paragraph l NormalText, Spacer 1 6])
                      (filter (\<lambda>l. \<not> blank U l) ls))"
  by (induction ls arbitrary: story) (simp_all add: str_strip_blank blank_def)

lemma paragraphs_append: "paragraphs (a @ b) = paragraphs a @ paragraphs b"
  by (induction a rule: paragraphs.induct) simp_all

lemma paragraphs_body:
  "paragraphs (concat (map (\<lambda>l. [Paragraph l NormalText, Spacer 1 6]) ls))
     = map (\<lambda>l. (l, NormalText)) ls"
  by (induction ls) simp_all

lemma body_texts_generate_pdf:
  "body_texts (generate_pdf U t now) = filter (\<lambda>l. \<not> blank U l) (str_split nl (clean_text t))"
  unfolding body_texts_def generate_pdf_def Let_def add_lines_eq paragraphs_append paragraphs_body
  by (simp add: filter_map o_def)

lemma blank_Nil: "blank U []"
  by (simp add: blank_def)

lemma not_blank_ascii:
  assumes f: "unicode_facts U" and x: "(of_char c :: nat) < 128"
    and n: "\<not> ((0x09 \<le> (of_char c :: nat) \<and> (of_char c :: nat) \<le> 0x0D) \<or>
               (0x1C \<le> (of_char c :: nat) \<and> (of_char c :: nat) \<le> 0x20))"
  shows "\<not> blank U (c # l)"
proof -
  have "code_points (c # l) = of_char c # code_points l"
    using x by (simp add: utf8_more_def utf8_lead_def)
  then show ?thesis using space_ascii [OF f x] n by (simp add: blank_def)
qed

text \<open>
  Claim C7. For every raw text, the report first escapes the characters that are
  markup and afterwards strips the markers \<open>**\<close> and \<open>*\<close>. The cleaned text is the
  text without its asterisks with every character escaped one by one, so no entity is
  touched by the stripping, and no markup character or marker is left in it. The body of
  the report is one paragraph per line of the cleaned text that is not blank, in order;
  a line of white space only, or an empty one, gives no paragraph. For
  \<open><b>100</b> kcal\<close>, a blank line and \<open>Good\<close> the body is the escaped first line and
  \<open>Good\<close>.
\<close>

theorem report_escapes_then_strips:
  "unicode_facts U \<Longrightarrow>
   clean_text t = str_replace ''*'' [] (str_replace ''**'' [] (html_escape t)) \<and>
   html_escape t = concat (map escape_chr t) \<and>
   clean_text t = concat (map escape_chr (filter (\<lambda>c. c \<noteq> CHR ''*'') t)) \<and>
   list_all (\<lambda>c. \<not> markup_or_marker c) (clean_text t) \<and>
   body_texts (generate_pdf U t now)
     = filter (\<lambda>l. \<not> blank U l) (str_split nl (clean_text t)) \<and>
   list_all (\<lambda>l. \<not> blank U l) (body_texts (generate_pdf U t now)) \<and>
   body_texts (generate_pdf U (''<b>100</b> kcal'' @ [nl, nl] @ ''Good'') now)
     = [''&lt;b&gt;100&lt;/b&gt; kcal'', ''Good'']"
proof (intro conjI)
  assume f: "unicode_facts U"
  show "clean_text t = str_replace ''*'' [] (str_replace ''**'' [] (html_escape t))"
    by (rule clean_text_def)
  show "html_escape t = concat (map escape_chr t)" by (rule html_escape_chars)
  show "clean_text t = concat (map escape_chr (filter (\<lambda>c. c \<noteq> CHR ''*'') t))"
    by (rule clean_text_chars)
  show "list_all (\<lambda>c. \<not> markup_or_marker c) (clean_text t)" by (rule clean_text_no_markup)
  show "body_texts (generate_pdf U t now)
     = filter (\<lambda>l. \<not> blank U l) (str_split nl (clean_text t))"
    by (rule body_texts_generate_pdf)
  show "list_all (\<lambda>l. \<not> blank U l) (body_texts (generate_pdf U t now))"
    unfolding body_texts_generate_pdf by (simp add: list_all_iff)
  have s: "str_split nl (clean_text (''<b>100</b> kcal'' @ [nl, nl] @ ''Good''))
      = [''&lt;b&gt;100&lt;/b&gt; kcal'', [], ''Good'']"
    by code_simp
  have b1: "\<not> blank U ''&lt;b&gt;100&lt;/b&gt; kcal''"
    by (rule not_blank_ascii [OF f]) simp_all
  have b3: "\<not> blank U ''Good''"
    by (rule not_blank_ascii [OF f]) simp_all
  show "body_texts (generate_pdf U (''<b>100</b> kcal'' @ [nl, nl] @ ''Good'') now)
     = [''&lt;b&gt;100&lt;/b&gt; kcal'', ''Good'']"
    unfolding body_texts_generate_pdf s using b1 b3 blank_Nil [of U] by simp
qed

text \<open>
  A text with markers around markup and an ampersand; a text whose second line is a
  no-break space, a space and an em space, which is blank, and whose third line has
  quotes.
\<close>

theorem report_escapes_then_strips_witness:
  "unicode_facts sample_unicode \<and>
   clean_text ''**Fat** <5g> & *low*'' = ''Fat &lt;5g&gt; &amp; low'' \<and>
   blank sample_unicode ([CHR 0xC2, CHR 0xA0] @ '' '' @ [CHR 0xE2, CHR 0x80, CHR 0x83]) \<and>
   body_texts (generate_pdf sample_unicode
       (''*Meal*'' @ [nl] @ [CHR 0xC2, CHR 0xA0] @ '' '' @ [CHR 0xE2, CHR 0x80, CHR 0x83] @ [nl] @
        ''Tom'' @ [CHR 0x27] @ ''s '' @ [CHR 0x22] @ ''dal'' @ [CHR 0x22])
       \<lparr>year = 2025, month = 3, day = 7, hour = 9, minute = 5, second = 0, microsecond = 0\<rparr>)
     = [''Meal'', ''Tom&#x27;s &quot;dal&quot;'']"
proof -
  let ?now = "\<lparr>year = 2025, month = 3, day = 7, hour = 9, minute = 5, second = 0, microsecond = 0\<rparr>"
  let ?t = "''*Meal*'' @ [nl] @ [CHR 0xC2, CHR 0xA0] @ '' '' @ [CHR 0xE2, CHR 0x80, CHR 0x83] @ [nl] @
        ''Tom'' @ [CHR 0x27] @ ''s '' @ [CHR 0x22] @ ''dal'' @ [CHR 0x22]"
  note th = report_escapes_then_strips [OF sample_facts]
  have a: "concat (map escape_chr (filter (\<lambda>c. c \<noteq> CHR ''*'') ''**Fat** <5g> & *low*''))
      = ''Fat &lt;5g&gt; &amp; low''"
    by code_simp
  have c: "clean_text ''**Fat** <5g> & *low*'' = ''Fat &lt;5g&gt; &amp; low''"
    using conjunct1 [OF conjunct2 [OF conjunct2 [OF th]], of "''**Fat** <5g> & *low*''"] a
    by simp
  have bl: "blank sample_unicode ([CHR 0xC2, CHR 0xA0] @ '' '' @ [CHR 0xE2, CHR 0x80, CHR 0x83])"
    by (simp add: blank_def sample_simps)
  have s: "str_split nl (clean_text ?t)
      = [''Meal'', [CHR 0xC2, CHR 0xA0] @ '' '' @ [CHR 0xE2, CHR 0x80, CHR 0x83],
         ''Tom&#x27;s &quot;dal&quot;'']"
    by code_simp
  have b1: "\<not> blank sample_unicode ''Meal''"
    by (rule not_blank_ascii [OF sample_facts]) simp_all
  have b3: "\<not> blank sample_unicode ''Tom&#x27;s &quot;dal&quot;''"
    by (rule not_blank_ascii [OF sample_facts]) simp_all
  have "filter (\<lambda>l. \<not> blank sample_unicode l) (str_split nl (clean_text ?t))
      = [''Meal'', ''Tom&#x27;s &quot;dal&quot;'']"
    unfolding s using b1 bl b3 by simp
  with conjunct1 [OF conjunct2 [OF conjunct2 [OF conjunct2 [OF conjunct2 [OF th]]]], of ?t ?now]
  have b: "body_texts (generate_pdf sample_unicode ?t ?now) = [''Meal'', ''Tom&#x27;s &quot;dal&quot;'']"
    by simp
  from sample_facts c bl b show ?thesis by (intro conjI)
qed

text \<open>
  Claim C8. The report of the empty text does not fail: its story is not empty and
  holds the title line, the line of the generation time and the footer line, with the
  spacers between them, and no body paragraph.
\<close>

theorem generate_pdf_empty:
  "generate_pdf U [] now =
     [Paragraph report_title Title, Spacer 1 10,
      Paragraph (''Generated on: '' @ strftime_dmY_HM now) Normal, Spacer 1 14,
      Spacer 1 20, Paragraph report_footer Italic] \<and>
   generate_pdf U [] now \<noteq> [] \<and>
   paragraphs (generate_pdf U [] now) =
     [(report_title, Title), (''Generated on: '' @ strftime_dmY_HM now, Normal),
      (report_footer, Italic)] \<and>
   body_texts (generate_pdf U [] now) = []"
proof -
  have c: "clean_text [] = []" by (simp add: clean_text_def html_escape_def)
  have s: "str_strip U [] = []" by (simp add: str_strip_def)
  have g: "generate_pdf U [] now =
     [Paragraph report_title Title, Spacer 1 10,
      Paragraph (''Generated on: '' @ strftime_dmY_HM now) Normal, Spacer 1 14,
      Spacer 1 20, Paragraph report_footer Italic]"
    unfolding generate_pdf_def Let_def c by (simp add: s)
  show ?thesis unfolding g by (simp add: body_texts_def)
qed

theorem generate_pdf_empty_witness:
  "paragraphs (generate_pdf sample_unicode []
      \<lparr>year = 2025, month = 3, day = 7, hour = 9, minute = 5, second = 0, microsecond = 0\<rparr>) =
     [(report_title, Title), (''Generated on: 07-03-2025 09:05'', Normal), (report_footer, Italic)]"
proof -
  let ?now = "\<lparr>year = 2025, month = 3, day = 7, hour = 9, minute = 5, second = 0, microsecond = 0\<rparr>"
  have s: "strftime_dmY_HM ?now = ''07-03-2025 09:05''" by code_simp
  from conjunct1 [OF conjunct2 [OF conjunct2 [OF generate_pdf_empty]], of sample_unicode ?now]
  show ?thesis unfolding s by simp
qed

section \<open>The share link\<close>

lemma quote_append: "quote (a @ b) = quote a @ quote b"
  by (simp add: quote_def)

lemma unquote_plain: "c \<noteq> CHR ''%'' \<Longrightarrow> unquote (c # r) = c # unquote r"
proof (cases r)
  case Nil
  then show ?thesis by simp
next
  case (Cons a r1)
  assume c: "c \<noteq> CHR ''%''"
  show ?thesis
  proof (cases r1)
    case Nil
    with Cons show ?thesis by simp
  next
    case (Cons b r2)
    with \<open>r = a # r1\<close> c show ?thesis by simp
  qed
qed

lemma hex_value_digit: "k < 16 \<Longrightarrow> hex_value (hex_digit k) = k"
proof -
  have "list_all (\<lambda>k. hex_value (hex_digit k) = k) [0..<16]" by code_simp
  then have "\<forall>k < 16. hex_value (hex_digit k) = k" by (simp only: all_less_list_all)
  then show "k < 16 \<Longrightarrow> hex_value (hex_digit k) = k" by simp
qed

lemma safe_not_percent: "always_safe c \<or> c = CHR ''/'' \<Longrightarrow> c \<noteq> CHR ''%''"
  unfolding always_safe_def by auto

lemma unquote_quote_byte: "unquote (quote_byte c @ r) = c # unquote r"
proof (cases "always_safe c \<or> c = CHR ''/''")
  case True
  then have "quote_byte c = [c]" by (simp add: quote_byte_def)
  with unquote_plain [OF safe_not_percent [OF True]] show ?thesis by simp
next
  case False
  let ?n = "of_char c :: nat"
  have n: "?n < 256" by simp
  then have d: "?n div 16 < 16" by (simp add: less_mult_imp_div_less)
  have m: "?n mod 16 < 16" by simp
  have q: "quote_byte c = [CHR ''%'', hex_digit (?n div 16), hex_digit (?n mod 16)]"
    using False by (simp add: quote_byte_def)
  have "16 * (?n div 16) + ?n mod 16 = ?n" by simp
  then have "char_of (16 * (?n div 16) + ?n mod 16) = c" by (simp only: char_of_char)
  then show ?thesis
    unfolding q by (simp add: hex_value_digit [OF d] hex_value_digit [OF m])
qed

lemma unquote_quote: "unquote (quote s) = s"
proof (induction s)
  case Nil
  then show ?case by (simp add: quote_def)
next
  case (Cons c s)
  have "quote (c # s) = quote_byte c @ quote s" by (simp add: quote_def)
  with Cons show ?case by (simp add: unquote_quote_byte)
qed

lemma length_quote: "length s \<le> length (quote s)"
proof (induction s)
  case Nil
  then show ?case by (simp add: quote_def)
next
  case (Cons c s)
  have "1 \<le> length (quote_byte c)" by (simp add: quote_byte_def)
  moreover have "quote (c # s) = quote_byte c @ quote s" by (simp add: quote_def)
  ultimately show ?case using Cons by simp
qed

text \<open>
  Claim C9. For every owner name and raw text, the share link is the fixed base
  \<open>https://wa.me/?text=\<close> followed by the percent-encoding of the whole message of
  the fixed template: the encoded heading, the encoded owner name, the encoded raw
  text in full and the encoded footer with the application's address follow each
  other, decoding the part after the base gives the message back, and the link is at
  least as long as the message. Nothing is cut at any size.
\<close>

theorem share_link_whole_message:
  "share_link user result = ''https://wa.me/?text='' @ quote (share_text user result) \<and>
   quote (share_text user result) =
     quote ([nl] @ report_title @ [nl, nl] @ ''User: '') @ quote user @ quote [nl, nl] @
     quote result @ quote ([nl, nl] @ ''Download full PDF:'' @ [nl] @ APP_URL @ [nl]) \<and>
   unquote (drop (length ''https://wa.me/?text='') (share_link user result))
     = share_text user result \<and>
   length (share_text user result) + length ''https://wa.me/?text=''
     \<le> length (share_link user result)"
proof (intro conjI)
  show l: "share_link user result = ''https://wa.me/?text='' @ quote (share_text user result)"
    by (simp add: share_link_def whatsapp_share_def)
  show "quote (share_text user result) =
     quote ([nl] @ report_title @ [nl, nl] @ ''User: '') @ quote user @ quote [nl, nl] @
     quote result @ quote ([nl, nl] @ ''Download full PDF:'' @ [nl] @ APP_URL @ [nl])"
    unfolding share_text_def by (simp only: quote_append append_assoc)
  show "unquote (drop (length ''https://wa.me/?text='') (share_link user result))
     = share_text user result"
    unfolding l by (simp only: append_eq_conv_conj drop_append length_drop drop_all diff_self_eq_0
        order_refl drop_0 append_Nil unquote_quote)
  show "length (share_text user result) + length ''https://wa.me/?text=''
     \<le> length (share_link user result)"
    unfolding l using length_quote [of "share_text user result"] by simp
qed

theorem share_link_whole_message_witness:
  "share_link ''bob'' ''Dal: 5% fat'' =
     ''https://wa.me/?text=%0ANutriVision%20%E2%80%93%20Nutrition%20Report%0A%0AUser%3A%20bob%0A%0ADal%3A%205%25%20fat%0A%0ADownload%20full%20PDF%3A%0Ahttps%3A//nutri-app.onrender.com%0A''"
proof -
  have q: "quote (share_text ''bob'' ''Dal: 5% fat'') =
     ''%0ANutriVision%20%E2%80%93%20Nutrition%20Report%0A%0AUser%3A%20bob%0A%0ADal%3A%205%25%20fat%0A%0ADownload%20full%20PDF%3A%0Ahttps%3A//nutri-app.onrender.com%0A''"
    by code_simp
  from conjunct1 [OF share_link_whole_message, of "''bob''" "''Dal: 5% fat''"]
  show ?thesis unfolding q by simp
qed

section \<open>The branches of the model that the code never reaches\<close>

text \<open>
  Every match of the four patterns carries exactly one group, a non-empty run of
  digits: \<open>m.group(1)\<close> exists and \<open>int\<close> is given digits only. \<open>split\<close> never returns
  the empty list, so \<open>result.split("\n")[0]\<close> exists.
\<close>

lemma kcal_group:
  assumes f: "unicode_facts U" and s: "re_search U True kcal_pattern t = Some gs"
  shows "\<exists>ds. gs = [ds] \<and> ds \<noteq> [] \<and> list_all (is_digit U) ds"
proof -
  from re_search_SomeD [OF s] obtain i where
    m: "match_items U True (unit_pattern ''kcal'') (drop i t) = Some gs"
    unfolding kcal_pattern_unit by blast
  have u: "unit_at U ''kcal'' (drop i t)" and gs: "gs = [takeWhile (is_digit U) (drop i t)]"
    using m unfolding match_unit [OF f plain_kcal] by (simp_all split: if_splits)
  from u have "takeWhile (is_digit U) (drop i t) \<noteq> []" by (simp add: unit_at_def)
  moreover have "list_all (is_digit U) (takeWhile (is_digit U) (drop i t))"
    by (auto simp: list_all_iff dest: set_takeWhileD)
  ultimately show ?thesis using gs by simp
qed

lemma field_group:
  assumes f: "unicode_facts U" and s: "re_search U True (field_pattern label ok) t = Some gs"
  shows "\<exists>ds. gs = [ds] \<and> ds \<noteq> [] \<and> list_all (is_digit U) ds"
proof -
  from s obtain ds where gs: "gs = [ds]" and d: "first_field U label ok t ds"
    unfolding search_first_field [OF f] by blast
  from d obtain i where "labeled_field U label ok (drop i t) ds"
    unfolding first_field_def field_match_at_def by blast
  then have "ds \<noteq> []" "list_all (is_digit U) ds" unfolding labeled_field_def by blast+
  with gs show ?thesis by simp
qed

lemma str_split_not_Nil: "str_split sep s \<noteq> []"
  by (induction s) (auto split: list.splits)

end
